theory Spec2Isabelle
  imports Complex_Main "HOL-Library.AList" "HOL-Library.Sublist"
begin

section \<open>The stochastic grammar of Grammar.h\<close>

text \<open>
  The development follows \<^verbatim>\<open>src/StochasticGrammar/Grammar.h\<close>: the class template
  \<^verbatim>\<open>Grammar<Data>\<close> keeps a registry \<^verbatim>\<open>m_pRules\<close> from rule names to shared node
  pointers, compiles rule texts into nodes (\<^verbatim>\<open>ParseRule\<close> and the \<^verbatim>\<open>Parse...Rule\<close> and
  \<^verbatim>\<open>Add...Rule\<close> members) and generates sequences from a named rule.

  Node objects live in an explicit store addressed by numbers, because the registry,
  the composites and the redefinition operation all depend on object identity.
\<close>

subsection \<open>The std::string operations used by the compiler\<close>

text \<open>
  \<^verbatim>\<open>s.find(pat, pos)\<close>: the lowest index at or after \<open>pos\<close> where \<open>pat\<close> occurs;
  \<open>None\<close> stands for \<^verbatim>\<open>std::string::npos\<close>.
\<close>

fun find_from :: "string \<Rightarrow> string \<Rightarrow> nat \<Rightarrow> nat option" where
  "find_from [] pat k = (if pat = [] then Some k else None)"
| "find_from (c # cs) pat k = (if prefix pat (c # cs) then Some k else find_from cs pat (Suc k))"

definition string_find :: "string \<Rightarrow> string \<Rightarrow> nat \<Rightarrow> nat option" where
  "string_find s pat pos = (if length s < pos then None else find_from (drop pos s) pat pos)"

text \<open>
  \<^verbatim>\<open>s.find_first_not_of(chars, pos)\<close>: the lowest index at or after \<open>pos\<close> whose character
  is not one of \<open>chars\<close>. The argument is a set of characters, not a pattern.
\<close>

fun find_not_of_from :: "string \<Rightarrow> string \<Rightarrow> nat \<Rightarrow> nat option" where
  "find_not_of_from [] chars k = None"
| "find_not_of_from (c # cs) chars k =
     (if c \<notin> set chars then Some k else find_not_of_from cs chars (Suc k))"

definition find_first_not_of :: "string \<Rightarrow> string \<Rightarrow> nat \<Rightarrow> nat option" where
  "find_first_not_of s chars pos = find_not_of_from (drop pos s) chars pos"

text \<open>
  \<^verbatim>\<open>s.substr(pos, count)\<close> for \<open>pos \<le> length s\<close>; the count is clamped to the rest of
  the string. Where a call could have \<open>pos > length s\<close> the caller below writes out the
  \<^verbatim>\<open>std::out_of_range\<close> that the library throws.
\<close>

definition substr :: "string \<Rightarrow> nat \<Rightarrow> nat \<Rightarrow> string" where
  "substr s pos count = take count (drop pos s)"

definition SEQ_DEL :: string where "SEQ_DEL = '' & ''"
definition SEL_DEL :: string where "SEL_DEL = '' | ''"
definition REP_DEL :: string where "REP_DEL = '' # ''"
definition LND_DEL :: string where "LND_DEL = '' -> ''"

text \<open>
  The splitting loop shared by \<^verbatim>\<open>ParseSelectorRule\<close> and \<^verbatim>\<open>ParseSequenceRule\<close>:
  \<^verbatim>\<open>
  size_t first; size_t last = 0;
  while ((first = rule.find_first_not_of(DEL, last)) != std::string::npos) {
      last = rule.find(DEL, first);
      rules.push_back(rule.substr(first, last - first));
  }
  \<close>
  When \<^verbatim>\<open>find\<close> returns \<^verbatim>\<open>npos\<close>, \<^verbatim>\<open>last - first\<close> is a huge count that
  \<^verbatim>\<open>substr\<close> clamps, so the token is the rest of the string, and the next
  \<^verbatim>\<open>find_first_not_of(DEL, npos)\<close> ends the loop. Both delimiters are non-empty macros;
  with an empty delimiter the source loop would not end, and the model returns no token.
\<close>

function split_loop :: "string \<Rightarrow> string \<Rightarrow> nat \<Rightarrow> string list" where
  "split_loop rule del lastp =
     (if del = [] then []
      else case find_first_not_of rule del lastp of
             None \<Rightarrow> []
           | Some first \<Rightarrow>
               (case string_find rule del first of
                  None \<Rightarrow> [drop first rule]
                | Some last' \<Rightarrow> substr rule first (last' - first) # split_loop rule del last'))"
  by pat_completeness auto

lemma find_from_Some:
  "find_from s pat k = Some l \<Longrightarrow> k \<le> l \<and> l - k \<le> length s \<and> prefix pat (drop (l - k) s)"
proof (induction s arbitrary: k)
  case Nil
  then show ?case by (auto split: if_splits)
next
  case (Cons c cs)
  show ?case
  proof (cases "prefix pat (c # cs)")
    case True
    with Cons.prems show ?thesis by simp
  next
    case False
    with Cons.prems have "find_from cs pat (Suc k) = Some l" by simp
    from Cons.IH[OF this] have "Suc k \<le> l" "l - Suc k \<le> length cs" "prefix pat (drop (l - Suc k) cs)"
      by auto
    moreover from \<open>Suc k \<le> l\<close> have "l - k = Suc (l - Suc k)" by simp
    ultimately show ?thesis by simp
  qed
qed

lemma string_find_Some:
  assumes "string_find s pat pos = Some l"
  shows "pos \<le> l" and "l + length pat \<le> length s" and "prefix pat (drop l s)"
proof -
  from assms have le: "pos \<le> length s" and f: "find_from (drop pos s) pat pos = Some l"
    by (auto simp: string_find_def split: if_splits)
  from find_from_Some[OF f] have a: "pos \<le> l" and b: "l - pos \<le> length s - pos"
    and c: "prefix pat (drop (l - pos) (drop pos s))" by auto
  show "pos \<le> l" by (rule a)
  from a c show p: "prefix pat (drop l s)" by simp
  then have "length pat \<le> length (drop l s)" by (rule prefix_length_le)
  moreover from a b le have "l \<le> length s" by simp
  ultimately show "l + length pat \<le> length s" by simp
qed

lemma find_from_None:
  "find_from s pat k = None \<Longrightarrow> i \<le> length s \<Longrightarrow> \<not> prefix pat (drop i s)"
proof (induction s arbitrary: k i)
  case Nil
  then show ?case by (auto split: if_splits)
next
  case (Cons c cs)
  then show ?case by (cases i) (auto split: if_splits)
qed

lemma string_find_None:
  assumes "string_find s pat pos = None" "pos \<le> i" "i \<le> length s"
  shows "\<not> prefix pat (drop i s)"
proof -
  from assms have "find_from (drop pos s) pat pos = None" by (simp add: string_find_def)
  from find_from_None[OF this, of "i - pos"] assms show ?thesis by simp
qed

lemma find_not_of_from_Some:
  "find_not_of_from s chars k = Some f \<Longrightarrow> k \<le> f \<and> f - k < length s \<and> s ! (f - k) \<notin> set chars"
proof (induction s arbitrary: k)
  case Nil
  then show ?case by simp
next
  case (Cons c cs)
  show ?case
  proof (cases "c \<in> set chars")
    case False
    with Cons.prems show ?thesis by simp
  next
    case True
    with Cons.prems have "find_not_of_from cs chars (Suc k) = Some f" by simp
    from Cons.IH[OF this] have "Suc k \<le> f" "f - Suc k < length cs" "cs ! (f - Suc k) \<notin> set chars"
      by auto
    moreover from \<open>Suc k \<le> f\<close> have "f - k = Suc (f - Suc k)" by simp
    ultimately show ?thesis by simp
  qed
qed

lemma find_first_not_of_Some:
  assumes "find_first_not_of s chars pos = Some f"
  shows "pos \<le> f" and "f < length s" and "s ! f \<notin> set chars"
proof -
  from assms have "find_not_of_from (drop pos s) chars pos = Some f"
    by (simp add: find_first_not_of_def)
  from find_not_of_from_Some[OF this]
  have a: "pos \<le> f" and b: "f - pos < length (drop pos s)" and c: "drop pos s ! (f - pos) \<notin> set chars"
    by auto
  show "pos \<le> f" by (rule a)
  from a b show "f < length s" by simp
  from a b c show "s ! f \<notin> set chars" by simp
qed

lemma delimiter_after_first:
  assumes "del \<noteq> []" "find_first_not_of rule del lastp = Some first"
    "string_find rule del first = Some l"
  shows "lastp \<le> first" and "first < l" and "l < length rule"
proof -
  note f = find_first_not_of_Some[OF assms(2)]
  note s = string_find_Some[OF assms(3)]
  show "lastp \<le> first" by (rule f(1))
  from s(2) assms(1) show l: "l < length rule" by (cases del) auto
  from s(3) assms(1) l have "rule ! l = hd del"
    by (cases del) (auto simp: prefix_def dest!: arg_cong[where f = hd] simp: hd_drop_conv_nth)
  with assms(1) have "rule ! l \<in> set del" by simp
  with f(3) have "l \<noteq> first" by auto
  with s(1) show "first < l" by simp
qed

termination split_loop
proof (relation "measure (\<lambda>(rule, del, lastp). length rule - lastp)", goal_cases)
  case 1
  show ?case by simp
next
  case (2 rule del lastp first l)
  from delimiter_after_first[OF 2(1) 2(2) 2(3)] show ?case by simp
qed

declare split_loop.simps [simp del]

lemma split_loop_shorter:
  "t \<in> set (split_loop rule del k) \<Longrightarrow> string_find rule del 0 = Some i \<Longrightarrow> del \<noteq> []
    \<Longrightarrow> length t < length rule"
proof (induction rule del k rule: split_loop.induct)
  case (1 rule del lastp)
  note mem = 1(2)[unfolded split_loop.simps[of rule del lastp]]
  note found = 1(3) and ne = 1(4)
  show ?case
  proof (cases "find_first_not_of rule del lastp")
    case None
    with mem ne show ?thesis by simp
  next
    case (Some first)
    note ff = find_first_not_of_Some[OF Some]
    show ?thesis
    proof (cases "string_find rule del first")
      case None
      have "first \<noteq> 0" using None found by (cases "first = 0") auto
      moreover from mem Some None ne have "t = drop first rule" by simp
      ultimately show ?thesis using ff(2) by simp
    next
      case Some2: (Some l)
      note dl = delimiter_after_first[OF ne Some Some2]
      from mem Some Some2 ne
      have "t = substr rule first (l - first) \<or> t \<in> set (split_loop rule del l)" by simp
      then show ?thesis
      proof
        assume "t = substr rule first (l - first)"
        with dl show ?thesis by (simp add: substr_def)
      next
        assume "t \<in> set (split_loop rule del l)"
        from 1(1)[OF ne Some Some2 this found ne] show ?thesis .
      qed
    qed
  qed
qed

subsection \<open>Nodes, the registry and ownership\<close>

type_synonym addr = nat

text \<open>
  \<open>Rule404Exception\<close> is the one exception class Grammar.h declares.
  \<open>std_invalid_argument\<close> and \<open>std_out_of_range\<close> are the exceptions of the C++
  library calls the compiler makes (\<^verbatim>\<open>std::stof\<close>, \<^verbatim>\<open>substr\<close>); nothing in Grammar.h
  catches them. \<open>NonPositiveWeight\<close> and \<open>InvalidRepetitionCount\<close> are error kinds of
  the spec that no line of Grammar.h raises; in this development they come from the
  node classes, which are not in src/ and are modelled from the spec below.
  \<open>undefined_behaviour\<close> is not an exception: it marks an evaluation that
  dereferences a null pointer or a node that has been destroyed.
\<close>

datatype error =
    Rule404Exception
  | std_invalid_argument
  | std_out_of_range
  | NonPositiveWeight
  | InvalidRepetitionCount
  | undefined_behaviour

text \<open>
  Modelled from the spec: the node classes \<^verbatim>\<open>LeafNode\<close>, \<^verbatim>\<open>SelectNode\<close>,
  \<^verbatim>\<open>SequenceNode\<close>, \<^verbatim>\<open>RepetitionNode\<close> and \<^verbatim>\<open>LNode\<close> that Grammar.h instantiates are
  not in src/ (the Nodes.h there declares an older, non-template \<^verbatim>\<open>Node\<close> with only a
  leaf and a selector). The fields are those of the spec's data model: a leaf holds one
  value; a selector a list of (child, positive weight) pairs, in \<^verbatim>\<open>AddOption\<close> order; a
  sequence an ordered list of children, in \<^verbatim>\<open>AddElement\<close> order; a repetition one child
  and a non-negative integer count; and the fallback node
  \<^verbatim>\<open>LNode(m_pRules[rule].get(), m_pRules[fallbackRule])\<close> the rule node first and the
  fallback node second, in the order of the constructor call. A finite \<^verbatim>\<open>float\<close> is kept
  as the rational it denotes; the infinities and NaN are not values of the model.
\<close>

datatype 'd node =
    LeafNode 'd
  | SelectNode "(addr \<times> rat) list"
  | SequenceNode "addr list"
  | RepetitionNode addr nat
  | LNode addr addr

text \<open>
  The object \<^verbatim>\<open>Grammar<Data>\<close>: the registry \<^verbatim>\<open>m_pRules\<close>
  (\<^verbatim>\<open>std::unordered_map<std::string, std::shared_ptr<Node<Data>>>\<close>) as an association
  list with one entry per key, the store of node objects, and the next address
  \<^verbatim>\<open>std::make_shared\<close> hands out. Addresses are never reused; address 0 is the null
  pointer.
\<close>

record 'd Grammar =
  m_pRules :: "(string \<times> addr) list"
  nodes :: "addr \<Rightarrow> 'd node option"
  next_addr :: addr

definition nullptr :: addr where "nullptr = 0"

definition Grammar_new :: "'d Grammar" where
  "Grammar_new = \<lparr>m_pRules = [], nodes = (\<lambda>_. None), next_addr = 1\<rparr>"

text \<open>\<^verbatim>\<open>m_pRules.find(name) != m_pRules.end()\<close>\<close>

definition registered :: "'d Grammar \<Rightarrow> string \<Rightarrow> bool" where
  "registered g name \<longleftrightarrow> map_of (m_pRules g) name \<noteq> None"

text \<open>
  \<^verbatim>\<open>m_pRules[name]\<close> read as a value. Every such read in Grammar.h follows a successful
  \<^verbatim>\<open>find\<close> of the key or a successful compilation under that key (which registers it,
  see \<open>ParseRule_registers\<close> below), so the default insertion of a null pointer that
  \<^verbatim>\<open>operator[]\<close> performs for a missing key never happens; the model returns the null
  pointer there without inserting.
\<close>

definition lookup :: "'d Grammar \<Rightarrow> string \<Rightarrow> addr" where
  "lookup g name = (case map_of (m_pRules g) name of Some a \<Rightarrow> a | None \<Rightarrow> nullptr)"

text \<open>\<^verbatim>\<open>m_pRules[name] = a\<close>, the map entry alone (what happens to the node the entry held
  before is \<open>release\<close>, written at the places where the previous pointer is dropped).\<close>

definition assign :: "'d Grammar \<Rightarrow> string \<Rightarrow> addr \<Rightarrow> 'd Grammar" where
  "assign g name a = g\<lparr>m_pRules := AList.update name a (m_pRules g)\<rparr>"

definition make_shared :: "'d Grammar \<Rightarrow> 'd node \<Rightarrow> addr \<times> 'd Grammar" where
  "make_shared g nd =
     (next_addr g, g\<lparr>nodes := (nodes g)(next_addr g \<mapsto> nd), next_addr := Suc (next_addr g)\<rparr>)"

text \<open>
  Ownership. A node is destroyed when the last \<^verbatim>\<open>std::shared_ptr\<close> to it goes away. The
  shared pointers of this program are the registry entries and the second constructor
  argument of \<^verbatim>\<open>LNode\<close> (Grammar.h passes \<^verbatim>\<open>m_pRules[fallbackRule]\<close> itself there, and
  \<^verbatim>\<open>.get()\<close>, a raw pointer, everywhere else). \<open>held g a\<close> says that some shared pointer
  of the state still points to \<open>a\<close>; \<open>release\<close> is what dropping one shared pointer to
  \<open>a\<close> does: nothing while \<open>a\<close> is still held, otherwise the node is destroyed and the
  pointer it owned is dropped in turn. The fuel bounds the length of that chain; the
  callers pass \<open>next_addr\<close>, more than the number of objects.
\<close>

definition held :: "'d Grammar \<Rightarrow> addr \<Rightarrow> bool" where
  "held g a \<longleftrightarrow>
     a \<in> snd ` set (m_pRules g) \<or>
     list_ex (\<lambda>b. case nodes g b of Some (LNode p f) \<Rightarrow> f = a | _ \<Rightarrow> False) [0..<next_addr g]"

fun release :: "nat \<Rightarrow> 'd Grammar \<Rightarrow> addr \<Rightarrow> 'd Grammar" where
  "release 0 g a = g"
| "release (Suc n) g a =
     (if held g a then g
      else case nodes g a of
             None \<Rightarrow> g
           | Some nd \<Rightarrow>
               (let g' = g\<lparr>nodes := (nodes g)(a := None)\<rparr>
                in case nd of LNode p f \<Rightarrow> release n g' f | _ \<Rightarrow> g'))"

text \<open>
  Modelled from the spec: \<^verbatim>\<open>Node::SwapDependingNode(old, new)\<close> is not in src/. The spec
  says of redefinition that every node that references the old node object is rewritten
  to reference the new one; the method does that for the node it is called on.
\<close>

definition swap_ptr :: "addr \<Rightarrow> addr \<Rightarrow> addr \<Rightarrow> addr" where
  "swap_ptr oldNode newNode p = (if p = oldNode then newNode else p)"

fun SwapDependingNode :: "'d node \<Rightarrow> addr \<Rightarrow> addr \<Rightarrow> 'd node" where
  "SwapDependingNode (LeafNode v) oldNode newNode = LeafNode v"
| "SwapDependingNode (SelectNode os) oldNode newNode =
     SelectNode (map (\<lambda>(p, w). (swap_ptr oldNode newNode p, w)) os)"
| "SwapDependingNode (SequenceNode es) oldNode newNode =
     SequenceNode (map (swap_ptr oldNode newNode) es)"
| "SwapDependingNode (RepetitionNode p n) oldNode newNode =
     RepetitionNode (swap_ptr oldNode newNode p) n"
| "SwapDependingNode (LNode p f) oldNode newNode =
     LNode (swap_ptr oldNode newNode p) (swap_ptr oldNode newNode f)"

text \<open>\<^verbatim>\<open>rule.second->SwapDependingNode(oldNode.get(), newNode.get())\<close> on the object at \<open>b\<close>.\<close>

definition swap_at :: "addr \<Rightarrow> addr \<Rightarrow> addr \<Rightarrow> (addr \<Rightarrow> 'd node option) \<Rightarrow> (addr \<Rightarrow> 'd node option)" where
  "swap_at oldNode newNode b h =
     (case h b of None \<Rightarrow> h | Some nd \<Rightarrow> h(b \<mapsto> SwapDependingNode nd oldNode newNode))"

text \<open>
  \<^verbatim>\<open>
  void Grammar<Data>::ChangeRule(const std::string& ruleName, std::shared_ptr<Node<Data>> newNode) {
      std::shared_ptr<Node<Data>> oldNode = m_pRules[ruleName];
      if (oldNode == newNode) { return; }
      m_pRules[ruleName] = newNode;
      for (auto& rule : m_pRules) {
          rule.second->SwapDependingNode(oldNode.get(), newNode.get());
      }
  }
  \<close>
  The loop visits the registry entries (the new entry among them), an object once per
  name it is registered under. On return the local \<^verbatim>\<open>oldNode\<close> drops the last pointer
  the function holds to the old node.
\<close>

definition ChangeRule :: "'d Grammar \<Rightarrow> string \<Rightarrow> addr \<Rightarrow> 'd Grammar" where
  "ChangeRule g ruleName newNode =
     (let oldNode = lookup g ruleName in
      if oldNode = newNode then g
      else
        let g1 = assign g ruleName newNode;
            g2 = g1\<lparr>nodes := fold (\<lambda>rule. swap_at oldNode newNode (snd rule)) (m_pRules g1) (nodes g1)\<rparr>
        in release (next_addr g2) g2 oldNode)"

text \<open>
  \<^verbatim>\<open>
  void Grammar<Data>::AddLeaveNode(const std::string& name, const Data& data) {
      std::shared_ptr<LeafNode<Data>> leaf{ std::make_shared<LeafNode<Data>>(data) };
      m_pRules[name] = leaf;
  }
  \<close>
  The assignment drops the pointer the entry held before, if there was one.
\<close>

definition AddLeaveNode :: "'d Grammar \<Rightarrow> string \<Rightarrow> 'd \<Rightarrow> 'd Grammar" where
  "AddLeaveNode g name data =
     (let (leaf, g1) = make_shared g (LeafNode data);
          g2 = assign g1 name leaf
      in case map_of (m_pRules g1) name of
           None \<Rightarrow> g2
         | Some oldNode \<Rightarrow> release (next_addr g2) g2 oldNode)"

text \<open>The specialisation \<^verbatim>\<open>Grammar<std::string>::AddSingleRule\<close> (lines 68 to 83).\<close>

definition AddSingleRule_string :: "string Grammar \<Rightarrow> string \<Rightarrow> string \<Rightarrow> error + string Grammar" where
  "AddSingleRule_string g name rule =
     (let g1 = (if \<not> registered g rule
                then (let (leaf, g') = make_shared g (LeafNode rule) in assign g' rule leaf)
                else g)
      in if registered g1 name then Inr (ChangeRule g1 name (lookup g1 rule))
         else Inr (assign g1 name (lookup g1 rule)))"

text \<open>The primary template \<^verbatim>\<open>Grammar<Data>::AddSingleRule\<close> (lines 85 to 101).\<close>

definition AddSingleRule :: "'d Grammar \<Rightarrow> string \<Rightarrow> string \<Rightarrow> error + 'd Grammar" where
  "AddSingleRule g name rule =
     (if \<not> registered g rule then Inl Rule404Exception
      else if registered g name then Inr (ChangeRule g name (lookup g rule))
      else Inr (assign g name (lookup g rule)))"

text \<open>
  What the compiler takes from outside Grammar.h:
  \<^item> \<open>single_rule\<close>: the \<^verbatim>\<open>AddSingleRule\<close> that the instantiation selects,
    \<open>AddSingleRule_string\<close> for \<^verbatim>\<open>Grammar<std::string>\<close> and \<open>AddSingleRule\<close> for every
    other payload type;
  \<^item> \<open>stof\<close>: the library function \<^verbatim>\<open>std::stof\<close>, which returns a value or throws;
  \<^item> \<open>indeterminate\<close>: in \<^verbatim>\<open>ParseLNodeRule\<close> the count of the second \<^verbatim>\<open>substr\<close> is
    \<^verbatim>\<open>rule.length() - ruleName.length() - del.length()\<close>, read inside the initialiser of
    \<^verbatim>\<open>ruleName\<close> itself, so \<^verbatim>\<open>ruleName.length()\<close> is the length field of an object
    that has not been constructed. The count the call ends up with is therefore not
    determined by the program; \<open>indeterminate pf rule\<close> is that count.
\<close>

record 'd platform =
  single_rule :: "'d Grammar \<Rightarrow> string \<Rightarrow> string \<Rightarrow> error + 'd Grammar"
  stof :: "string \<Rightarrow> error + rat"
  indeterminate :: "string \<Rightarrow> nat"

definition Grammar_string :: "(string \<Rightarrow> error + rat) \<Rightarrow> (string \<Rightarrow> nat) \<Rightarrow> string platform" where
  "Grammar_string stof' indet =
     \<lparr>single_rule = AddSingleRule_string, stof = stof', indeterminate = indet\<rparr>"

definition Grammar_other :: "(string \<Rightarrow> error + rat) \<Rightarrow> (string \<Rightarrow> nat) \<Rightarrow> 'd platform" where
  "Grammar_other stof' indet =
     \<lparr>single_rule = AddSingleRule, stof = stof', indeterminate = indet\<rparr>"

definition ParseSingleRule :: "'d platform \<Rightarrow> 'd Grammar \<Rightarrow> string \<Rightarrow> string \<Rightarrow> error + 'd Grammar" where
  "ParseSingleRule pf g name rule = single_rule pf g name rule"

text \<open>
  Modelled from the spec: \<^verbatim>\<open>SelectNode::AddOption(node, weight)\<close> is not in src/. The
  spec's selector holds (child, positive weight) pairs in source order, and a parsed
  weight \<open>\<le> 0\<close> is the error \<open>NonPositiveWeight\<close>. Grammar.h hands every parsed weight
  to \<^verbatim>\<open>AddOption\<close> without looking at it, so the method is where that error is
  raised: it throws on a weight \<open>\<le> 0\<close> and appends the pair otherwise.
\<close>

definition AddOption :: "'d Grammar \<Rightarrow> addr \<Rightarrow> addr \<Rightarrow> rat \<Rightarrow> error + 'd Grammar" where
  "AddOption g selectNode p weight =
     (if weight \<le> 0 then Inl NonPositiveWeight
      else case nodes g selectNode of
             Some (SelectNode os) \<Rightarrow>
               Inr (g\<lparr>nodes := (nodes g)(selectNode \<mapsto> SelectNode (os @ [(p, weight)]))\<rparr>)
           | _ \<Rightarrow> Inr g)"

text \<open>
  Modelled from the spec: \<^verbatim>\<open>SequenceNode::AddElement(node)\<close> is not in src/; it appends to
  the node's list (the spec keeps the children in source order).
\<close>

definition AddElement :: "'d Grammar \<Rightarrow> addr \<Rightarrow> addr \<Rightarrow> 'd Grammar" where
  "AddElement g sequenceNode p =
     (case nodes g sequenceNode of
        Some (SequenceNode es) \<Rightarrow> g\<lparr>nodes := (nodes g)(sequenceNode \<mapsto> SequenceNode (es @ [p]))\<rparr>
      | _ \<Rightarrow> g)"

text \<open>
  Modelled from the spec: the constructor \<^verbatim>\<open>RepetitionNode(node, repetitions)\<close> is not in src/.
  Grammar.h passes it the \<^verbatim>\<open>float\<close> that \<^verbatim>\<open>std::stof\<close> returned. The spec's repetition
  holds a non-negative integer count: the parsed number is coerced by truncation toward
  zero, and a negative value is the error \<open>InvalidRepetitionCount\<close>. Grammar.h does
  neither, so the constructor is where both happen.
\<close>

definition new_RepetitionNode :: "addr \<Rightarrow> rat \<Rightarrow> error + 'd node" where
  "new_RepetitionNode p repetitions =
     (if repetitions < 0 then Inl InvalidRepetitionCount
      else Inr (RepetitionNode p (nat \<lfloor>repetitions\<rfloor>)))"

subsection \<open>The text of a rule, taken apart\<close>

text \<open>
  The second loop of \<^verbatim>\<open>ParseSelectorRule\<close>, for one clause:
  \<^verbatim>\<open>
  size_t spaceIndex = rule.find(" ");
  std::string weightString{ rule.substr(0, spaceIndex) };
  std::string ruleName{ rule.substr(spaceIndex + 1, rule.length() - weightString.length() - 1) };
  float weight{ std::stof(weightString) };
  \<close>
  Without a space, \<^verbatim>\<open>spaceIndex\<close> is \<^verbatim>\<open>npos\<close>: \<^verbatim>\<open>weightString\<close> is the whole clause,
  \<^verbatim>\<open>spaceIndex + 1\<close> wraps to 0 and the count \<^verbatim>\<open>0 - 1\<close> wraps to the largest value, so
  \<^verbatim>\<open>ruleName\<close> is the whole clause too.
\<close>

definition weightString_of :: "string \<Rightarrow> string" where
  "weightString_of rule =
     (case string_find rule '' '' 0 of None \<Rightarrow> rule | Some spaceIndex \<Rightarrow> substr rule 0 spaceIndex)"

definition ruleName_of :: "string \<Rightarrow> string" where
  "ruleName_of rule =
     (case string_find rule '' '' 0 of
        None \<Rightarrow> rule
      | Some spaceIndex \<Rightarrow>
          substr rule (spaceIndex + 1) (length rule - length (weightString_of rule) - 1))"

definition weightedRule_of :: "(string \<Rightarrow> error + rat) \<Rightarrow> string \<Rightarrow> error + (string \<times> rat)" where
  "weightedRule_of stof' rule =
     (case stof' (weightString_of rule) of
        Inl e \<Rightarrow> Inl e
      | Inr weight \<Rightarrow> Inr (ruleName_of rule, weight))"

fun weightedRules_of :: "(string \<Rightarrow> error + rat) \<Rightarrow> string list \<Rightarrow> error + (string \<times> rat) list" where
  "weightedRules_of stof' [] = Inr []"
| "weightedRules_of stof' (rule # rules) =
     (case weightedRule_of stof' rule of
        Inl e \<Rightarrow> Inl e
      | Inr wr \<Rightarrow> (case weightedRules_of stof' rules of Inl e \<Rightarrow> Inl e | Inr wrs \<Rightarrow> Inr (wr # wrs)))"

text \<open>
  The body of \<^verbatim>\<open>ParseRepetitionRule\<close> up to the call of \<^verbatim>\<open>AddRepetitionRule\<close>:
  \<^verbatim>\<open>
  std::string del{ REP_DEL };
  size_t splitIndex = rule.find(del);
  std::string ruleName{ rule.substr(0, splitIndex) };
  std::string repetitionString{ rule.substr(splitIndex + del.length(),
                                            rule.length() - ruleName.length() - del.length()) };
  float repetitions{ std::stof(repetitionString) };
  \<close>
  \<^verbatim>\<open>ParseRule\<close> calls it only when the delimiter is there. Without it \<^verbatim>\<open>splitIndex + 3\<close>
  wraps to 2, \<^verbatim>\<open>substr\<close> throws when the text is shorter than that, and the wrapped
  count is clamped.
\<close>

definition repeatedRule_of :: "(string \<Rightarrow> error + rat) \<Rightarrow> string \<Rightarrow> error + (string \<times> rat)" where
  "repeatedRule_of stof' rule =
     (case string_find rule REP_DEL 0 of
        Some splitIndex \<Rightarrow>
          (let ruleName = substr rule 0 splitIndex;
               repetitionString = substr rule (splitIndex + length REP_DEL)
                                    (length rule - length ruleName - length REP_DEL)
           in case stof' repetitionString of Inl e \<Rightarrow> Inl e | Inr n \<Rightarrow> Inr (ruleName, n))
      | None \<Rightarrow>
          (if length rule < 2 then Inl std_out_of_range
           else case stof' (drop 2 rule) of Inl e \<Rightarrow> Inl e | Inr n \<Rightarrow> Inr (rule, n)))"

text \<open>
  The body of \<^verbatim>\<open>ParseLNodeRule\<close> up to the call of \<^verbatim>\<open>AddLNodeRule\<close>:
  \<^verbatim>\<open>
  std::string del{ LND_DEL };
  size_t splitIndex = rule.find(del);
  std::string fallbackName{ rule.substr(0, splitIndex) };
  std::string ruleName{ rule.substr(splitIndex + del.length(),
                                    rule.length() - ruleName.length() - del.length()) };
  AddLNodeRule(name, ruleName, fallbackName);
  \<close>
  The result is the pair (\<^verbatim>\<open>ruleName\<close>, \<^verbatim>\<open>fallbackName\<close>) in the order of the call.
\<close>

definition LNode_operands :: "(string \<Rightarrow> nat) \<Rightarrow> string \<Rightarrow> error + (string \<times> string)" where
  "LNode_operands indet rule =
     (case string_find rule LND_DEL 0 of
        Some splitIndex \<Rightarrow>
          (let fallbackName = substr rule 0 splitIndex;
               ruleName = substr rule (splitIndex + length LND_DEL) (indet rule)
           in Inr (ruleName, fallbackName))
      | None \<Rightarrow>
          (if length rule < 3 then Inl std_out_of_range
           else Inr (substr rule 3 (indet rule), rule)))"

subsection \<open>The compiler\<close>

text \<open>
  \<^verbatim>\<open>ParseRule\<close> and the members it calls, which call it back on every subrule that has
  no registry entry (\<^verbatim>\<open>ParseRule(rule, rule)\<close>: the token is both the name and the
  text). The range-for loops of \<^verbatim>\<open>AddSelectorRule\<close> and \<^verbatim>\<open>AddSequenceRule\<close> are the
  two \<open>_loop\<close> functions. A thrown exception ends the compilation: the result is
  \<open>Inl\<close> of it, and the partly updated registry that the object is left with is not
  part of the result. \<^verbatim>\<open>std::make_shared\<close> is written before the branch on
  \<^verbatim>\<open>m_pRules.find(name)\<close> where the source has the same call in both branches. In
  \<^verbatim>\<open>AddRepetitionRule\<close> the constructor of the node runs inside that call, after the
  subrule has been resolved.
\<close>

function ParseRule :: "'d platform \<Rightarrow> 'd Grammar \<Rightarrow> string \<Rightarrow> string \<Rightarrow> error + 'd Grammar"
  and ParseSelectorRule :: "'d platform \<Rightarrow> 'd Grammar \<Rightarrow> string \<Rightarrow> string \<Rightarrow> error + 'd Grammar"
  and ParseSequenceRule :: "'d platform \<Rightarrow> 'd Grammar \<Rightarrow> string \<Rightarrow> string \<Rightarrow> error + 'd Grammar"
  and ParseRepetitionRule :: "'d platform \<Rightarrow> 'd Grammar \<Rightarrow> string \<Rightarrow> string \<Rightarrow> error + 'd Grammar"
  and ParseLNodeRule :: "'d platform \<Rightarrow> 'd Grammar \<Rightarrow> string \<Rightarrow> string \<Rightarrow> error + 'd Grammar"
  and AddSelectorRule :: "'d platform \<Rightarrow> 'd Grammar \<Rightarrow> string \<Rightarrow> (string \<times> rat) list \<Rightarrow> error + 'd Grammar"
  and AddSelectorRule_loop :: "'d platform \<Rightarrow> 'd Grammar \<Rightarrow> addr \<Rightarrow> (string \<times> rat) list \<Rightarrow> error + 'd Grammar"
  and AddSequenceRule :: "'d platform \<Rightarrow> 'd Grammar \<Rightarrow> string \<Rightarrow> string list \<Rightarrow> error + 'd Grammar"
  and AddSequenceRule_loop :: "'d platform \<Rightarrow> 'd Grammar \<Rightarrow> addr \<Rightarrow> string list \<Rightarrow> error + 'd Grammar"
  and AddRepetitionRule :: "'d platform \<Rightarrow> 'd Grammar \<Rightarrow> string \<Rightarrow> string \<times> rat \<Rightarrow> error + 'd Grammar"
  and AddLNodeRule :: "'d platform \<Rightarrow> 'd Grammar \<Rightarrow> string \<Rightarrow> string \<Rightarrow> string \<Rightarrow> error + 'd Grammar"
where
  "ParseRule pf g name rule =
     (if string_find rule LND_DEL 0 \<noteq> None then ParseLNodeRule pf g name rule
      else if string_find rule SEQ_DEL 0 \<noteq> None then ParseSequenceRule pf g name rule
      else if string_find rule SEL_DEL 0 \<noteq> None then ParseSelectorRule pf g name rule
      else if string_find rule REP_DEL 0 \<noteq> None then ParseRepetitionRule pf g name rule
      else ParseSingleRule pf g name rule)"
| "ParseSelectorRule pf g name rule =
     (case weightedRules_of (stof pf) (split_loop rule SEL_DEL 0) of
        Inl e \<Rightarrow> Inl e
      | Inr weightedRules \<Rightarrow> AddSelectorRule pf g name weightedRules)"
| "ParseSequenceRule pf g name rule = AddSequenceRule pf g name (split_loop rule SEQ_DEL 0)"
| "ParseRepetitionRule pf g name rule =
     (case repeatedRule_of (stof pf) rule of
        Inl e \<Rightarrow> Inl e
      | Inr rr \<Rightarrow> AddRepetitionRule pf g name rr)"
| "ParseLNodeRule pf g name rule =
     (case LNode_operands (indeterminate pf) rule of
        Inl e \<Rightarrow> Inl e
      | Inr (ruleName, fallbackName) \<Rightarrow> AddLNodeRule pf g name ruleName fallbackName)"
| "AddSelectorRule pf g name rules =
     (case make_shared g (SelectNode []) of (selectNode, g1) \<Rightarrow>
        (case AddSelectorRule_loop pf g1 selectNode rules of
           Inl e \<Rightarrow> Inl e
         | Inr g2 \<Rightarrow>
             if registered g2 name then Inr (ChangeRule g2 name selectNode)
             else Inr (assign g2 name selectNode)))"
| "AddSelectorRule_loop pf g selectNode [] = Inr g"
| "AddSelectorRule_loop pf g selectNode (rule # rules) =
     (case (if \<not> registered g (fst rule) then ParseRule pf g (fst rule) (fst rule) else Inr g) of
        Inl e \<Rightarrow> Inl e
      | Inr g1 \<Rightarrow>
          (case AddOption g1 selectNode (lookup g1 (fst rule)) (snd rule) of
             Inl e \<Rightarrow> Inl e
           | Inr g2 \<Rightarrow> AddSelectorRule_loop pf g2 selectNode rules))"
| "AddSequenceRule pf g name rules =
     (case make_shared g (SequenceNode []) of (sequenceNode, g1) \<Rightarrow>
        (case AddSequenceRule_loop pf g1 sequenceNode rules of
           Inl e \<Rightarrow> Inl e
         | Inr g2 \<Rightarrow>
             if registered g2 name then Inr (ChangeRule g2 name sequenceNode)
             else Inr (assign g2 name sequenceNode)))"
| "AddSequenceRule_loop pf g sequenceNode [] = Inr g"
| "AddSequenceRule_loop pf g sequenceNode (rule # rules) =
     (case (if \<not> registered g rule then ParseRule pf g rule rule else Inr g) of
        Inl e \<Rightarrow> Inl e
      | Inr g1 \<Rightarrow>
          AddSequenceRule_loop pf (AddElement g1 sequenceNode (lookup g1 rule)) sequenceNode rules)"
| "AddRepetitionRule pf g name rule =
     (case (if \<not> registered g (fst rule) then ParseRule pf g (fst rule) (fst rule) else Inr g) of
        Inl e \<Rightarrow> Inl e
      | Inr g1 \<Rightarrow>
          (case new_RepetitionNode (lookup g1 (fst rule)) (snd rule) of
             Inl e \<Rightarrow> Inl e
           | Inr nd \<Rightarrow>
               (case make_shared g1 nd of
                  (repetitionNode, g2) \<Rightarrow>
                    if registered g1 name then Inr (ChangeRule g2 name repetitionNode)
                    else Inr (assign g2 name repetitionNode))))"
| "AddLNodeRule pf g name rule fallbackRule =
     (case (if \<not> registered g rule then ParseRule pf g rule rule else Inr g) of
        Inl e \<Rightarrow> Inl e
      | Inr g1 \<Rightarrow>
          (case (if \<not> registered g1 fallbackRule then ParseRule pf g1 fallbackRule fallbackRule
                 else Inr g1) of
             Inl e \<Rightarrow> Inl e
           | Inr g2 \<Rightarrow>
               (case make_shared g2 (LNode (lookup g2 rule) (lookup g2 fallbackRule)) of
                  (lNode, g3) \<Rightarrow>
                    if registered g2 name then Inr (ChangeRule g3 name lNode)
                    else Inr (assign g3 name lNode))))"
  by pat_completeness auto

text \<open>
  Termination: every subrule handed back to \<open>ParseRule\<close> is strictly shorter than the
  text it was cut from, because that text contains the delimiter and the subrule does
  not reach across it.
\<close>

definition maxlen :: "string list \<Rightarrow> nat" where
  "maxlen xs = foldr max (map length xs) 0"

lemma maxlen_simps [simp]:
  "maxlen [] = 0" "maxlen (x # xs) = max (length x) (maxlen xs)"
  by (simp_all add: maxlen_def)

lemma maxlen_less: "\<forall>t\<in>set xs. length t < n \<Longrightarrow> 0 < n \<Longrightarrow> maxlen xs < n"
  by (induction xs) auto

lemma weightedRule_of_length:
  "weightedRule_of stof' c = Inr wr \<Longrightarrow> length (fst wr) \<le> length c"
  by (auto simp: weightedRule_of_def ruleName_of_def substr_def split: sum.splits option.splits)

lemma weightedRules_of_length:
  "weightedRules_of stof' cs = Inr wrs \<Longrightarrow> \<forall>t\<in>set cs. length t < n
    \<Longrightarrow> \<forall>wr\<in>set wrs. length (fst wr) < n"
proof (induction cs arbitrary: wrs)
  case Nil
  then show ?case by simp
next
  case (Cons c cs)
  from Cons.prems(1) obtain wr wrs' where wr: "weightedRule_of stof' c = Inr wr"
    and rest: "weightedRules_of stof' cs = Inr wrs'" and eq: "wrs = wr # wrs'"
    by (auto split: sum.splits)
  from weightedRule_of_length[OF wr] Cons.prems(2) have "length (fst wr) < n" by auto
  moreover from Cons.IH[OF rest] Cons.prems(2) have "\<forall>wr\<in>set wrs'. length (fst wr) < n" by simp
  ultimately show ?case using eq by simp
qed

lemma delimiters_nonempty [simp]:
  "SEQ_DEL \<noteq> []" "SEL_DEL \<noteq> []" "REP_DEL \<noteq> []" "LND_DEL \<noteq> []"
  "length SEQ_DEL = 3" "length SEL_DEL = 3" "length REP_DEL = 3" "length LND_DEL = 4"
  by (simp_all add: SEQ_DEL_def SEL_DEL_def REP_DEL_def LND_DEL_def)

lemma selector_names_shorter:
  assumes "string_find rule SEL_DEL 0 = Some i"
    and "weightedRules_of stof' (split_loop rule SEL_DEL 0) = Inr wrs"
  shows "maxlen (map fst wrs) < length rule"
proof -
  have "\<forall>t\<in>set (split_loop rule SEL_DEL 0). length t < length rule"
    using split_loop_shorter[OF _ assms(1)] by simp
  from weightedRules_of_length[OF assms(2) this]
  have "\<forall>t\<in>set (map fst wrs). length t < length rule" by simp
  moreover from string_find_Some(2)[OF assms(1)] have "0 < length rule" by auto
  ultimately show ?thesis by (rule maxlen_less)
qed

lemma sequence_names_shorter:
  assumes "string_find rule SEQ_DEL 0 = Some i"
  shows "maxlen (split_loop rule SEQ_DEL 0) < length rule"
proof -
  have "\<forall>t\<in>set (split_loop rule SEQ_DEL 0). length t < length rule"
    using split_loop_shorter[OF _ assms(1)] by simp
  moreover from string_find_Some(2)[OF assms(1)] have "0 < length rule" by auto
  ultimately show ?thesis by (rule maxlen_less)
qed

lemma repetition_name_shorter:
  assumes "string_find rule REP_DEL 0 = Some i" and "repeatedRule_of stof' rule = Inr rr"
  shows "length (fst rr) < length rule"
  using assms string_find_Some(2)[OF assms(1)]
  by (auto simp: repeatedRule_of_def Let_def substr_def split: sum.splits)

lemma LNode_names_shorter:
  assumes "string_find rule LND_DEL 0 = Some i" and "LNode_operands indet rule = Inr (x, y)"
  shows "length x < length rule" and "length y < length rule"
  using assms string_find_Some(2)[OF assms(1)]
  by (auto simp: LNode_operands_def Let_def substr_def)

termination ParseRule
proof (relation "inv_image (less_than <*lex*> less_than)
    (\<lambda>x. case x of
        Inl (Inl (Inl (pf, g, name, rule))) \<Rightarrow> (10 * length rule, 0)
      | Inl (Inl (Inr (pf, g, name, rule))) \<Rightarrow>
          (10 * maxlen (case weightedRules_of (stof pf) (split_loop rule SEL_DEL 0) of
                          Inl e \<Rightarrow> [] | Inr wrs \<Rightarrow> map fst wrs) + 3, 0)
      | Inl (Inr (Inl (pf, g, name, rule))) \<Rightarrow> (10 * maxlen (split_loop rule SEQ_DEL 0) + 3, 0)
      | Inl (Inr (Inr (Inl (pf, g, name, rule)))) \<Rightarrow>
          (10 * maxlen (case repeatedRule_of (stof pf) rule of
                          Inl e \<Rightarrow> [] | Inr rr \<Rightarrow> [fst rr]) + 3, 0)
      | Inl (Inr (Inr (Inr (pf, g, name, rule)))) \<Rightarrow>
          (10 * maxlen (case LNode_operands (indeterminate pf) rule of
                          Inl e \<Rightarrow> [] | Inr (a, b) \<Rightarrow> [a, b]) + 3, 0)
      | Inr (Inl (Inl (pf, g, name, rules))) \<Rightarrow> (10 * maxlen (map fst rules) + 2, 0)
      | Inr (Inl (Inr (Inl (pf, g, selectNode, rules)))) \<Rightarrow>
          (10 * maxlen (map fst rules) + 1, length rules)
      | Inr (Inl (Inr (Inr (pf, g, name, rules)))) \<Rightarrow> (10 * maxlen rules + 2, 0)
      | Inr (Inr (Inl (pf, g, sequenceNode, rules))) \<Rightarrow> (10 * maxlen rules + 1, length rules)
      | Inr (Inr (Inr (Inl (pf, g, name, rule)))) \<Rightarrow> (10 * length (fst rule) + 2, 0)
      | Inr (Inr (Inr (Inr (pf, g, name, rule, fallbackRule)))) \<Rightarrow>
          (10 * max (length rule) (length fallbackRule) + 2, 0))", goal_cases)
  case 1
  show ?case by (intro wf_inv_image wf_lex_prod wf_less_than)
next
  case (2 pf g name rule)
  then obtain i where i: "string_find rule LND_DEL 0 = Some i" by auto
  show ?case
  proof (cases "LNode_operands (indeterminate pf) rule")
    case (Inl e)
    with string_find_Some(2)[OF i] show ?thesis by simp
  next
    case (Inr ab)
    obtain a b where ab: "ab = (a, b)" by (cases ab)
    from LNode_names_shorter[OF i Inr[unfolded ab]] Inr ab show ?thesis by simp
  qed
next
  case (3 pf g name rule)
  then obtain i where i: "string_find rule SEQ_DEL 0 = Some i" by auto
  from sequence_names_shorter[OF i] show ?case by simp
next
  case (4 pf g name rule)
  then obtain i where i: "string_find rule SEL_DEL 0 = Some i" by auto
  show ?case
  proof (cases "weightedRules_of (stof pf) (split_loop rule SEL_DEL 0)")
    case (Inl e)
    with string_find_Some(2)[OF i] show ?thesis by simp
  next
    case (Inr wrs)
    from selector_names_shorter[OF i Inr] Inr show ?thesis by simp
  qed
next
  case (5 pf g name rule)
  then obtain i where i: "string_find rule REP_DEL 0 = Some i" by auto
  show ?case
  proof (cases "repeatedRule_of (stof pf) rule")
    case (Inl e)
    with string_find_Some(2)[OF i] show ?thesis by simp
  next
    case (Inr rr)
    from repetition_name_shorter[OF i Inr] Inr show ?thesis by simp
  qed
qed (auto simp: less_Suc_eq_le)

text \<open>The spec's \<open>resolve_or_compile\<close>: the test and call that each \<^verbatim>\<open>Add...Rule\<close> makes
  for a subrule.\<close>

definition resolve_or_compile :: "'d platform \<Rightarrow> 'd Grammar \<Rightarrow> string \<Rightarrow> error + 'd Grammar" where
  "resolve_or_compile pf g rule = (if \<not> registered g rule then ParseRule pf g rule rule else Inr g)"

text \<open>
  What the compilation of a subrule leaves alone. \<open>grows A L g g'\<close> relates a grammar
  \<open>g\<close> to a later one: no address has been taken back; every registry entry of \<open>g\<close>
  is still there; every object of \<open>g\<close> is unchanged, those at the addresses \<open>A\<close> apart
  (the node a loop is filling); and every name registered since is at most \<open>L\<close> long.
  It is used to state the frame of \<^verbatim>\<open>ParseRule(rule, rule)\<close> on a token without a
  registry entry.
\<close>

definition grows :: "addr set \<Rightarrow> nat \<Rightarrow> 'd Grammar \<Rightarrow> 'd Grammar \<Rightarrow> bool" where
  "grows A L g g' \<longleftrightarrow>
     next_addr g \<le> next_addr g' \<and>
     (\<forall>n b. map_of (m_pRules g) n = Some b \<longrightarrow> map_of (m_pRules g') n = Some b) \<and>
     (\<forall>b. b < next_addr g \<and> b \<notin> A \<longrightarrow> nodes g' b = nodes g b) \<and>
     (\<forall>n. registered g' n \<and> \<not> registered g n \<longrightarrow> length n \<le> L)"

subsection \<open>Generation\<close>

text \<open>
  Modelled from the spec: \<^verbatim>\<open>Node::Parse(result, depth)\<close> is not in src/. Following the
  spec's section 4.3: a leaf yields its value; a sequence concatenates its elements'
  outputs in order; a selector draws a sample in \<open>[0, sum of weights)\<close> and evaluates the
  first option whose running cumulative weight exceeds the sample (when there is none,
  nothing is evaluated); a repetition evaluates its child count times; a
  fallback node compares the depth with the configured maximum \<open>maxDepth\<close>: below it
  the rule node is evaluated with depth + 1, at or beyond it the fallback node. The
  random source is the function \<open>rnd\<close> (values in \<open>[0, 1)\<close>) read at a running index.
  The recursion of the source has no bound, so the model takes fuel: \<open>None\<close> is out of
  fuel, and \<open>Some (Inl undefined_behaviour)\<close> is the dereference of a null pointer or a
  destroyed node.
\<close>

fun pick_option :: "(addr \<times> rat) list \<Rightarrow> rat \<Rightarrow> rat \<Rightarrow> addr option" where
  "pick_option [] acc r = None"
| "pick_option ((p, w) # os) acc r = (if r < acc + w then Some p else pick_option os (acc + w) r)"

fun Parse :: "nat \<Rightarrow> (addr \<Rightarrow> 'd node option) \<Rightarrow> nat \<Rightarrow> (nat \<Rightarrow> rat) \<Rightarrow> addr \<Rightarrow> nat \<Rightarrow> nat
      \<Rightarrow> (error + 'd list \<times> nat) option"
  and Parse_all :: "nat \<Rightarrow> (addr \<Rightarrow> 'd node option) \<Rightarrow> nat \<Rightarrow> (nat \<Rightarrow> rat) \<Rightarrow> addr list \<Rightarrow> nat \<Rightarrow> nat
      \<Rightarrow> (error + 'd list \<times> nat) option"
where
  "Parse 0 h maxDepth rnd p depth i = None"
| "Parse (Suc n) h maxDepth rnd p depth i =
     (case h p of
        None \<Rightarrow> Some (Inl undefined_behaviour)
      | Some (LeafNode v) \<Rightarrow> Some (Inr ([v], i))
      | Some (SelectNode os) \<Rightarrow>
          (case pick_option os 0 (rnd i * sum_list (map snd os)) of
             None \<Rightarrow> Some (Inr ([], Suc i))
           | Some c \<Rightarrow> Parse n h maxDepth rnd c depth (Suc i))
      | Some (SequenceNode es) \<Rightarrow> Parse_all n h maxDepth rnd es depth i
      | Some (RepetitionNode c k) \<Rightarrow> Parse_all n h maxDepth rnd (replicate k c) depth i
      | Some (LNode pr fb) \<Rightarrow>
          (if depth < maxDepth then Parse n h maxDepth rnd pr (Suc depth) i
           else Parse n h maxDepth rnd fb depth i))"
| "Parse_all n h maxDepth rnd [] depth i = Some (Inr ([], i))"
| "Parse_all n h maxDepth rnd (p # ps) depth i =
     (case Parse n h maxDepth rnd p depth i of
        None \<Rightarrow> None
      | Some (Inl e) \<Rightarrow> Some (Inl e)
      | Some (Inr (out, i')) \<Rightarrow>
          (case Parse_all n h maxDepth rnd ps depth i' of
             None \<Rightarrow> None
           | Some (Inl e) \<Rightarrow> Some (Inl e)
           | Some (Inr (outs, i'')) \<Rightarrow> Some (Inr (out @ outs, i''))))"

text \<open>
  \<^verbatim>\<open>
  std::vector<Data> Grammar<Data>::GenerateSequence(std::string ruleName) {
      if (m_pRules.find(ruleName) == m_pRules.end()) { throw Rule404Exception{}; }
      std::vector<Data> result{};
      m_pRules[ruleName]->Parse(result, 0);
      return result;
  }
  \<close>
\<close>

definition GenerateSequence ::
    "nat \<Rightarrow> nat \<Rightarrow> (nat \<Rightarrow> rat) \<Rightarrow> 'd Grammar \<Rightarrow> string \<Rightarrow> (error + 'd list) option" where
  "GenerateSequence fuel maxDepth rnd g ruleName =
     (if \<not> registered g ruleName then Some (Inl Rule404Exception)
      else map_option (map_sum id fst) (Parse fuel (nodes g) maxDepth rnd (lookup g ruleName) 0 0))"

subsection \<open>A decimal reading of std::stof for the examples\<close>

text \<open>
  \<^verbatim>\<open>std::stof\<close> belongs to the C++ library. The theorems below take it as the parameter
  \<open>stof\<close> of the platform and hold for whatever finite value or exception it returns
  (a \<^verbatim>\<open>float\<close> is kept as the rational it denotes, so an infinity or a NaN is not a
  value the parameter can return, and the theorems say nothing about a text that
  \<^verbatim>\<open>std::stof\<close> reads as one).

  The closed examples need one function to run with. \<open>stof_decimal\<close> reads a plain
  decimal text the way \<^verbatim>\<open>std::stof\<close> does: it skips leading white space, takes an
  optional sign and the digits with an optional fraction, ignores what follows, and
  throws \<^verbatim>\<open>std::invalid_argument\<close> when no digit is there. Its value is the exact value
  of the decimal. \<^verbatim>\<open>std::stof\<close> returns the nearest \<^verbatim>\<open>float\<close> instead, reads
  exponents, hexadecimal floats, infinities and NaN as well, and throws
  \<^verbatim>\<open>std::out_of_range\<close> when the value is out of the range of a \<^verbatim>\<open>float\<close>: the two
  agree on a text of digits, sign and fraction whose value a \<^verbatim>\<open>float\<close> holds exactly,
  and on a text that starts with no number at all. The texts the examples hand to it
  are of these two kinds only (\<^verbatim>\<open>3\<close>, \<^verbatim>\<open>1\<close>, \<^verbatim>\<open>0\<close>, \<^verbatim>\<open>-1\<close>, \<^verbatim>\<open>2\<close>, \<^verbatim>\<open>2.5\<close> and
  \<^verbatim>\<open>x\<close>).
\<close>

definition isspace :: "char \<Rightarrow> bool" where
  "isspace c \<longleftrightarrow> c \<in> set [CHR '' '', CHR 0x09, CHR 0x0A, CHR 0x0B, CHR 0x0C, CHR 0x0D]"

definition digit_of :: "char \<Rightarrow> nat option" where
  "digit_of c = map_of [(CHR ''0'', 0), (CHR ''1'', 1), (CHR ''2'', 2), (CHR ''3'', 3), (CHR ''4'', 4),
     (CHR ''5'', 5), (CHR ''6'', 6), (CHR ''7'', 7), (CHR ''8'', 8), (CHR ''9'', 9)] c"

fun digits_value :: "string \<Rightarrow> nat \<Rightarrow> nat" where
  "digits_value [] acc = acc"
| "digits_value (c # cs) acc =
     digits_value cs (10 * acc + (case digit_of c of Some d \<Rightarrow> d | None \<Rightarrow> 0))"

definition stof_decimal :: "string \<Rightarrow> error + rat" where
  "stof_decimal s =
     (let s1 = dropWhile isspace s;
          neg = (case s1 of c # r \<Rightarrow> c = CHR ''-'' | [] \<Rightarrow> False);
          s2 = (case s1 of c # r \<Rightarrow> if c = CHR ''-'' \<or> c = CHR ''+'' then r else s1 | [] \<Rightarrow> s1);
          ip = takeWhile (\<lambda>c. digit_of c \<noteq> None) s2;
          r1 = dropWhile (\<lambda>c. digit_of c \<noteq> None) s2;
          fp = (case r1 of
                  c # r \<Rightarrow> if c = CHR ''.'' then takeWhile (\<lambda>c. digit_of c \<noteq> None) r else []
                | [] \<Rightarrow> [])
      in if ip = [] \<and> fp = [] then Inl std_invalid_argument
         else Inr ((if neg then - 1 else 1) * (of_nat (digits_value (ip @ fp) 0) / 10 ^ length fp)))"

text \<open>\<^verbatim>\<open>Grammar<std::string>\<close> with that reading, and with an indeterminate count that never
  cuts the operand short.\<close>

definition string_grammar :: "string platform" where
  "string_grammar = Grammar_string stof_decimal length"

text \<open>\<^verbatim>\<open>Grammar<unsigned>\<close>, an instantiation with another payload type, set up the same way.\<close>

definition nat_grammar :: "nat platform" where
  "nat_grammar = Grammar_other stof_decimal length"

text \<open>Several compilations in a row, stopping at the first exception.\<close>

fun ParseRules :: "'d platform \<Rightarrow> 'd Grammar \<Rightarrow> (string \<times> string) list \<Rightarrow> error + 'd Grammar" where
  "ParseRules pf g [] = Inr g"
| "ParseRules pf g ((name, rule) # rest) =
     (case ParseRule pf g name rule of Inl e \<Rightarrow> Inl e | Inr g' \<Rightarrow> ParseRules pf g' rest)"

subsection \<open>Facts about the registry, ownership and redefinition\<close>

declare ParseRule.simps [simp del] ParseSelectorRule.simps [simp del]
  ParseSequenceRule.simps [simp del] ParseRepetitionRule.simps [simp del]
  ParseLNodeRule.simps [simp del] AddSelectorRule.simps [simp del]
  AddSelectorRule_loop.simps [simp del] AddSequenceRule.simps [simp del]
  AddSequenceRule_loop.simps [simp del] AddRepetitionRule.simps [simp del]
  AddLNodeRule.simps [simp del]

text \<open>\<^verbatim>\<open>find\<close> from position 0 succeeds exactly when the pattern occurs in the text.\<close>

lemma string_find_sublist: "string_find s pat 0 \<noteq> None \<longleftrightarrow> sublist pat s"
proof
  assume "string_find s pat 0 \<noteq> None"
  then obtain l where l: "string_find s pat 0 = Some l" by auto
  from string_find_Some(3)[OF l] obtain zs where "drop l s = pat @ zs" by (auto simp: prefix_def)
  then have "s = take l s @ pat @ zs" by (metis append_take_drop_id)
  then show "sublist pat s" unfolding sublist_def by blast
next
  assume "sublist pat s"
  then obtain ps ss where s: "s = ps @ pat @ ss" unfolding sublist_def by blast
  show "string_find s pat 0 \<noteq> None"
  proof
    assume "string_find s pat 0 = None"
    from string_find_None[OF this, of "length ps"] s show False by simp
  qed
qed

lemma not_sublist_eval: "string_find s pat 0 = None \<Longrightarrow> \<not> sublist pat s"
  using string_find_sublist[of s pat] by simp

lemma release_frame:
  "m_pRules (release n g a) = m_pRules g \<and> next_addr (release n g a) = next_addr g"
proof (induction n arbitrary: g a)
  case 0
  show ?case by simp
next
  case (Suc n)
  show ?case
    by (auto simp: Let_def Suc split: option.splits node.splits)
qed

lemma release_keeps_registered:
  "b \<in> snd ` set (m_pRules g) \<Longrightarrow> nodes (release n g a) b = nodes g b"
proof (induction n arbitrary: g a)
  case 0
  show ?case by simp
next
  case (Suc n)
  show ?case
  proof (cases "held g a")
    case True
    then show ?thesis by simp
  next
    case False
    with Suc.prems have ne: "a \<noteq> b" by (auto simp: held_def)
    let ?g' = "g\<lparr>nodes := (nodes g)(a := None)\<rparr>"
    have reg: "b \<in> snd ` set (m_pRules ?g')" using Suc.prems by simp
    have keep: "nodes ?g' b = nodes g b" using ne by simp
    show ?thesis
    proof (cases "nodes g a")
      case None
      with False show ?thesis by simp
    next
      case (Some nd)
      show ?thesis
      proof (cases nd)
        case (LNode p f)
        from Suc.IH[OF reg, of f] keep False Some LNode show ?thesis by (simp add: Let_def)
      qed (use False Some ne in \<open>simp_all add: Let_def\<close>)
    qed
  qed
qed

lemma map_of_assign:
  "map_of (m_pRules (assign g name a)) = (map_of (m_pRules g))(name \<mapsto> a)"
  by (simp add: assign_def update_conv')

lemma assign_frame [simp]:
  "nodes (assign g name a) = nodes g" "next_addr (assign g name a) = next_addr g"
  by (simp_all add: assign_def)

lemma in_registry: "map_of (m_pRules g) name = Some a \<Longrightarrow> a \<in> snd ` set (m_pRules g)"
  by (force dest: map_of_SomeD)

lemma AddLeaveNode_unfold:
  "AddLeaveNode g name v =
     (let g2 = assign (g\<lparr>nodes := (nodes g)(next_addr g \<mapsto> LeafNode v), next_addr := Suc (next_addr g)\<rparr>)
                 name (next_addr g)
      in case map_of (m_pRules g) name of None \<Rightarrow> g2 | Some oldNode \<Rightarrow> release (next_addr g2) g2 oldNode)"
  by (simp add: AddLeaveNode_def make_shared_def Let_def)

lemma AddLeaveNode_entry:
  "map_of (m_pRules (AddLeaveNode g name v)) name = Some (next_addr g)"
  unfolding AddLeaveNode_unfold Let_def
  by (cases "map_of (m_pRules g) name") (simp_all only: option.case release_frame map_of_assign fun_upd_same)

lemma AddLeaveNode_leaf:
  "nodes (AddLeaveNode g name v) (next_addr g) = Some (LeafNode v)"
proof -
  let ?g2 = "assign (g\<lparr>nodes := (nodes g)(next_addr g \<mapsto> LeafNode v), next_addr := Suc (next_addr g)\<rparr>)
                 name (next_addr g)"
  have reg: "next_addr g \<in> snd ` set (m_pRules ?g2)"
    by (rule in_registry[of _ name]) (simp add: map_of_assign)
  have leaf: "nodes ?g2 (next_addr g) = Some (LeafNode v)" by simp
  show ?thesis
    unfolding AddLeaveNode_unfold Let_def
    by (cases "map_of (m_pRules g) name")
      (simp_all only: option.case release_keeps_registered[OF reg] leaf)
qed

lemma swap_ptr_idem [simp]:
  "swap_ptr oldNode newNode (swap_ptr oldNode newNode p) = swap_ptr oldNode newNode p"
  by (simp add: swap_ptr_def)

lemma SwapDependingNode_idem [simp]:
  "SwapDependingNode (SwapDependingNode nd oldNode newNode) oldNode newNode =
   SwapDependingNode nd oldNode newNode"
  by (cases nd) (auto simp: comp_def)

lemma swap_at_apply:
  "swap_at oldNode newNode c h x =
     (if x = c then map_option (\<lambda>nd. SwapDependingNode nd oldNode newNode) (h x) else h x)"
  by (auto simp: swap_at_def split: option.splits)

lemma fold_swap_at:
  "fold (\<lambda>rule. swap_at oldNode newNode (snd rule)) rs h b =
     (if b \<in> snd ` set rs then map_option (\<lambda>nd. SwapDependingNode nd oldNode newNode) (h b)
      else h b)"
proof (induction rs arbitrary: h)
  case Nil
  show ?case by simp
next
  case (Cons r rs)
  let ?S = "map_option (\<lambda>nd. SwapDependingNode nd oldNode newNode)"
  let ?h1 = "swap_at oldNode newNode (snd r) h"
  have h1: "?h1 b = (if b = snd r then ?S (h b) else h b)" by (rule swap_at_apply)
  have "fold (\<lambda>rule. swap_at oldNode newNode (snd rule)) (r # rs) h b =
        fold (\<lambda>rule. swap_at oldNode newNode (snd rule)) rs ?h1 b" by simp
  also have "\<dots> = (if b \<in> snd ` set rs then ?S (?h1 b) else ?h1 b)" by (rule Cons.IH)
  also have "\<dots> = (if b \<in> snd ` set (r # rs) then ?S (h b) else h b)"
    unfolding h1 by (cases "h b") auto
  finally show ?case .
qed

lemma ChangeRule_unfold:
  "ChangeRule g ruleName newNode =
     (if lookup g ruleName = newNode then g
      else release (next_addr g)
             (g\<lparr>m_pRules := AList.update ruleName newNode (m_pRules g),
                nodes := fold (\<lambda>rule. swap_at (lookup g ruleName) newNode (snd rule))
                           (AList.update ruleName newNode (m_pRules g)) (nodes g)\<rparr>)
             (lookup g ruleName))"
  by (simp add: ChangeRule_def Let_def assign_def)

lemma ChangeRule_frame:
  "next_addr (ChangeRule g ruleName newNode) = next_addr g"
  by (simp add: ChangeRule_unfold release_frame)

lemma ChangeRule_entry:
  "registered g ruleName \<Longrightarrow> map_of (m_pRules (ChangeRule g ruleName newNode)) ruleName = Some newNode"
  by (auto simp: ChangeRule_unfold release_frame update_conv' registered_def lookup_def)

lemma ChangeRule_other_entries:
  "n \<noteq> ruleName \<Longrightarrow> map_of (m_pRules (ChangeRule g ruleName newNode)) n = map_of (m_pRules g) n"
  by (simp add: ChangeRule_unfold release_frame update_conv')

lemma ChangeRule_registered_nodes:
  assumes "lookup g ruleName \<noteq> newNode" and "map_of (m_pRules (ChangeRule g ruleName newNode)) n = Some b"
  shows "nodes (ChangeRule g ruleName newNode) b =
           map_option (\<lambda>nd. SwapDependingNode nd (lookup g ruleName) newNode) (nodes g b)"
proof -
  let ?rs = "AList.update ruleName newNode (m_pRules g)"
  let ?g2 = "g\<lparr>m_pRules := ?rs,
                nodes := fold (\<lambda>rule. swap_at (lookup g ruleName) newNode (snd rule)) ?rs (nodes g)\<rparr>"
  from assms have cr: "ChangeRule g ruleName newNode = release (next_addr g) ?g2 (lookup g ruleName)"
    by (simp add: ChangeRule_unfold)
  from assms(2) have "map_of ?rs n = Some b" by (simp add: cr release_frame)
  then have reg: "b \<in> snd ` set (m_pRules ?g2)" by (force dest: map_of_SomeD)
  then have "b \<in> snd ` set ?rs" by simp
  then have "nodes ?g2 b = map_option (\<lambda>nd. SwapDependingNode nd (lookup g ruleName) newNode) (nodes g b)"
    by (simp add: fold_swap_at)
  with release_keeps_registered[OF reg] show ?thesis by (simp add: cr)
qed

lemma registered_assign [simp]: "registered (assign g name a) n \<longleftrightarrow> n = name \<or> registered g n"
  by (simp add: registered_def map_of_assign)

lemma lookup_assign [simp]: "lookup (assign g name a) n = (if n = name then a else lookup g n)"
  by (simp add: lookup_def map_of_assign)

lemma no_operator_single:
  assumes "\<not> sublist LND_DEL rule" "\<not> sublist SEQ_DEL rule" "\<not> sublist SEL_DEL rule"
    "\<not> sublist REP_DEL rule"
  shows "ParseRule pf g name rule = single_rule pf g name rule"
  using assms by (simp only: ParseRule.simps[of pf g name rule] string_find_sublist if_False ParseSingleRule_def)

lemma AddSingleRule_string_fresh:
  assumes "\<not> registered g rule"
  shows "\<exists>g'. AddSingleRule_string g name rule = Inr g' \<and>
           nodes g' (next_addr g) = Some (LeafNode rule) \<and>
           map_of (m_pRules g') rule = Some (next_addr g) \<and>
           map_of (m_pRules g') name = Some (next_addr g) \<and>
           next_addr g' = Suc (next_addr g)"
proof -
  let ?a = "next_addr g"
  let ?g0 = "g\<lparr>nodes := (nodes g)(?a \<mapsto> LeafNode rule), next_addr := Suc ?a\<rparr>"
  let ?g1 = "assign ?g0 rule ?a"
  have g1: "nodes ?g1 ?a = Some (LeafNode rule)" "map_of (m_pRules ?g1) rule = Some ?a"
    "next_addr ?g1 = Suc ?a" "lookup ?g1 rule = ?a"
    by (simp_all add: map_of_assign)
  show ?thesis
  proof (cases "registered ?g1 name")
    case False
    then have ne: "name \<noteq> rule" by auto
    from False assms have "AddSingleRule_string g name rule = Inr (assign ?g1 name ?a)"
      by (simp add: AddSingleRule_string_def make_shared_def Let_def)
    moreover have "map_of (m_pRules (assign ?g1 name ?a)) rule = Some ?a"
      using ne by (simp add: map_of_assign)
    ultimately show ?thesis using g1 by (simp add: map_of_assign)
  next
    case True
    let ?g' = "ChangeRule ?g1 name ?a"
    from True assms have res: "AddSingleRule_string g name rule = Inr ?g'"
      by (simp add: AddSingleRule_string_def make_shared_def Let_def)
    have entry: "map_of (m_pRules ?g') name = Some ?a" by (rule ChangeRule_entry[OF True])
    have rule_entry: "map_of (m_pRules ?g') rule = Some ?a"
    proof (cases "rule = name")
      case True
      with entry show ?thesis by simp
    next
      case False
      from ChangeRule_other_entries[OF this, of ?g1 ?a] g1(2) show ?thesis by simp
    qed
    have leaf: "nodes ?g' ?a = Some (LeafNode rule)"
    proof (cases "lookup ?g1 name = ?a")
      case True
      then show ?thesis using g1(1) by (simp add: ChangeRule_unfold)
    next
      case False
      from ChangeRule_registered_nodes[OF False entry] g1(1) show ?thesis by simp
    qed
    from res entry rule_entry leaf show ?thesis by (simp add: ChangeRule_frame)
  qed
qed

lemma AddSingleRule_resolved:
  assumes "map_of (m_pRules g) rule = Some b"
  shows "\<exists>g'. AddSingleRule g name rule = Inr g' \<and> map_of (m_pRules g') name = Some b \<and>
           next_addr g' = next_addr g"
proof -
  from assms have reg: "registered g rule" and lk: "lookup g rule = b"
    by (simp_all add: registered_def lookup_def)
  show "\<exists>g'. AddSingleRule g name rule = Inr g' \<and> map_of (m_pRules g') name = Some b \<and>
           next_addr g' = next_addr g"
    using reg lk by (auto simp: AddSingleRule_def ChangeRule_entry ChangeRule_frame map_of_assign)
qed

lemma AddSingleRule_string_resolved:
  assumes "map_of (m_pRules g) rule = Some b"
  shows "\<exists>g'. AddSingleRule_string g name rule = Inr g' \<and> map_of (m_pRules g') name = Some b \<and>
           next_addr g' = next_addr g"
proof -
  from assms have reg: "registered g rule" and lk: "lookup g rule = b"
    by (simp_all add: registered_def lookup_def)
  then show ?thesis
    by (auto simp: AddSingleRule_string_def ChangeRule_entry ChangeRule_frame map_of_assign)
qed

lemma swap_ptr_same [simp]: "swap_ptr a a p = p"
  by (simp add: swap_ptr_def)

lemma SwapDependingNode_same [simp]: "SwapDependingNode nd a a = nd"
  by (cases nd) (auto simp: map_idI)

text \<open>What \<^verbatim>\<open>ChangeRule\<close> and the plain assignment leave at a freshly made node.\<close>

lemma ChangeRule_new_node:
  assumes "registered g name" and "nodes g newNode = Some nd"
  shows "map_of (m_pRules (ChangeRule g name newNode)) name = Some newNode"
    and "nodes (ChangeRule g name newNode) newNode = Some (SwapDependingNode nd (lookup g name) newNode)"
proof -
  show e: "map_of (m_pRules (ChangeRule g name newNode)) name = Some newNode"
    by (rule ChangeRule_entry[OF assms(1)])
  show "nodes (ChangeRule g name newNode) newNode = Some (SwapDependingNode nd (lookup g name) newNode)"
  proof (cases "lookup g name = newNode")
    case True
    with assms(2) show ?thesis by (simp add: ChangeRule_unfold)
  next
    case False
    from ChangeRule_registered_nodes[OF False e] assms(2) show ?thesis by simp
  qed
qed

lemma make_shared_eq:
  "make_shared g nd = (next_addr g, g\<lparr>nodes := (nodes g)(next_addr g \<mapsto> nd), next_addr := Suc (next_addr g)\<rparr>)"
  by (simp add: make_shared_def)

lemma install_new_node:
  assumes "g' = (if registered g2 name then ChangeRule g3 name (next_addr g2) else assign g3 name (next_addr g2))"
    and "g3 = g2\<lparr>nodes := (nodes g2)(next_addr g2 \<mapsto> nd), next_addr := Suc (next_addr g2)\<rparr>"
  shows "map_of (m_pRules g') name = Some (next_addr g2)"
    and "nodes g' (next_addr g2) =
           Some (if registered g2 name then SwapDependingNode nd (lookup g2 name) (next_addr g2) else nd)"
proof -
  have reg: "registered g3 name \<longleftrightarrow> registered g2 name" and lk: "lookup g3 name = lookup g2 name"
    and nd: "nodes g3 (next_addr g2) = Some nd"
    by (simp_all add: assms(2) registered_def lookup_def)
  show "map_of (m_pRules g') name = Some (next_addr g2)"
    using ChangeRule_new_node(1)[of g3 name "next_addr g2" nd] reg nd
    by (simp add: assms(1) map_of_assign)
  show "nodes g' (next_addr g2) =
           Some (if registered g2 name then SwapDependingNode nd (lookup g2 name) (next_addr g2) else nd)"
    using ChangeRule_new_node(2)[of g3 name "next_addr g2" nd] reg nd lk
    by (simp add: assms(1))
qed

lemma AddLNodeRule_result:
  assumes "AddLNodeRule pf g name rule fallbackRule = Inr g'"
  shows "\<exists>g1 g2. resolve_or_compile pf g rule = Inr g1 \<and>
           resolve_or_compile pf g1 fallbackRule = Inr g2 \<and>
           map_of (m_pRules g') name = Some (next_addr g2) \<and>
           nodes g' (next_addr g2) =
             Some (if registered g2 name
                   then SwapDependingNode (LNode (lookup g2 rule) (lookup g2 fallbackRule))
                          (lookup g2 name) (next_addr g2)
                   else LNode (lookup g2 rule) (lookup g2 fallbackRule))"
proof -
  from assms obtain g1 where g1: "resolve_or_compile pf g rule = Inr g1"
    by (auto simp: AddLNodeRule.simps[of pf g name rule fallbackRule] resolve_or_compile_def
        split: sum.splits if_splits)
  from assms g1 obtain g2 where g2: "resolve_or_compile pf g1 fallbackRule = Inr g2"
    by (auto simp: AddLNodeRule.simps[of pf g name rule fallbackRule] resolve_or_compile_def
        split: sum.splits if_splits)
  let ?nd = "LNode (lookup g2 rule) (lookup g2 fallbackRule)"
  let ?g3 = "g2\<lparr>nodes := (nodes g2)(next_addr g2 \<mapsto> ?nd), next_addr := Suc (next_addr g2)\<rparr>"
  from assms g1 g2
  have g': "g' = (if registered g2 name then ChangeRule ?g3 name (next_addr g2)
                  else assign ?g3 name (next_addr g2))"
    by (auto simp: AddLNodeRule.simps[of pf g name rule fallbackRule] resolve_or_compile_def
        make_shared_eq split: sum.splits if_splits)
  from install_new_node[OF g' refl] g1 g2 show ?thesis by blast
qed

lemma LNode_operands_found:
  assumes "string_find rule LND_DEL 0 = Some k" and "length rule - (k + 4) \<le> indet rule"
  shows "LNode_operands indet rule = Inr (drop (k + 4) rule, take k rule)"
    and "rule = take k rule @ LND_DEL @ drop (k + 4) rule"
proof -
  show "LNode_operands indet rule = Inr (drop (k + 4) rule, take k rule)"
    using assms by (simp add: LNode_operands_def substr_def)
  from string_find_Some(3)[OF assms(1)] obtain zs where zs: "drop k rule = LND_DEL @ zs"
    by (auto simp: prefix_def)
  then have "drop 4 (drop k rule) = zs" by simp
  then have "zs = drop (k + 4) rule" by (simp add: add.commute)
  with zs have "drop k rule = LND_DEL @ drop (k + 4) rule" by simp
  then show "rule = take k rule @ LND_DEL @ drop (k + 4) rule"
    by (metis append_take_drop_id)
qed





lemma AddRepetitionRule_unfold:
  "AddRepetitionRule pf g name (A, n) =
     (case resolve_or_compile pf g A of
        Inl e \<Rightarrow> Inl e
      | Inr g1 \<Rightarrow>
          if n < 0 then Inl InvalidRepetitionCount
          else Inr (let g2 = g1\<lparr>nodes := (nodes g1)(next_addr g1 \<mapsto> RepetitionNode (lookup g1 A) (nat \<lfloor>n\<rfloor>)),
                                next_addr := Suc (next_addr g1)\<rparr>
                    in if registered g1 name then ChangeRule g2 name (next_addr g1)
                       else assign g2 name (next_addr g1)))"
  by (simp add: AddRepetitionRule.simps[of pf g name "(A, n)"] resolve_or_compile_def
      new_RepetitionNode_def make_shared_eq Let_def split: sum.splits)

lemma repeatedRule_of_found:
  assumes "string_find rule REP_DEL 0 = Some k"
  shows "repeatedRule_of stof' rule =
     (case stof' (drop (k + 3) rule) of Inl e \<Rightarrow> Inl e | Inr n \<Rightarrow> Inr (take k rule, n))"
proof -
  from string_find_Some(2)[OF assms] have "k + 3 \<le> length rule" by simp
  then have "min (length rule) k = k" by simp
  with assms show ?thesis by (simp add: repeatedRule_of_def substr_def Let_def)
qed

lemma registered_frame [simp]:
  "registered (g\<lparr>nodes := h\<rparr>) n = registered g n"
  "registered (g\<lparr>next_addr := k\<rparr>) n = registered g n"
  "lookup (g\<lparr>nodes := h\<rparr>) n = lookup g n"
  "lookup (g\<lparr>next_addr := k\<rparr>) n = lookup g n"
  by (simp_all add: registered_def lookup_def)

lemma registered_ChangeRule: "registered g n \<Longrightarrow> registered (ChangeRule g n a) n"
  using ChangeRule_entry[of g n a] by (simp add: registered_def)

lemma installed_registered:
  assumes "m_pRules g3 = m_pRules g2"
  shows "registered (if registered g2 name then ChangeRule g3 name a else assign g3 name a) name"
proof -
  from assms have "registered g3 name \<longleftrightarrow> registered g2 name" by (simp add: registered_def)
  then show ?thesis by (simp add: registered_ChangeRule)
qed

lemma AddSingleRule_string_registers:
  "AddSingleRule_string g name rule = Inr g' \<Longrightarrow> registered g' name"
  by (auto simp: AddSingleRule_string_def Let_def make_shared_eq registered_ChangeRule
      split: if_splits)

lemma AddSingleRule_registers:
  "AddSingleRule g name rule = Inr g' \<Longrightarrow> registered g' name"
  by (auto simp: AddSingleRule_def registered_ChangeRule split: if_splits)

lemma ParseRule_registers:
  assumes single: "\<And>g n r g'. single_rule pf g n r = Inr g' \<Longrightarrow> registered g' n"
    and ok: "ParseRule pf g name rule = Inr g'"
  shows "registered g' name"
proof -
  have sel: "registered g' name" if "AddSelectorRule pf g name wrs = Inr g'" for wrs
    using that
    by (auto simp: AddSelectorRule.simps[of pf g name wrs] make_shared_eq registered_ChangeRule
        split: sum.splits if_splits)
  have seq: "registered g' name" if "AddSequenceRule pf g name ts = Inr g'" for ts
    using that
    by (auto simp: AddSequenceRule.simps[of pf g name ts] make_shared_eq registered_ChangeRule
        split: sum.splits if_splits)
  have rep: "registered g' name" if "AddRepetitionRule pf g name rr = Inr g'" for rr
    using that
    by (auto simp: AddRepetitionRule.simps[of pf g name rr] make_shared_eq registered_ChangeRule
        split: sum.splits if_splits)
  have lnd: "registered g' name" if "AddLNodeRule pf g name a b = Inr g'" for a b
    using that
    by (auto simp: AddLNodeRule.simps[of pf g name a b] make_shared_eq registered_ChangeRule
        split: sum.splits if_splits)
  from ok show ?thesis
    by (auto simp: ParseRule.simps[of pf g name rule] ParseLNodeRule.simps[of pf g name rule]
        ParseSequenceRule.simps[of pf g name rule] ParseSelectorRule.simps[of pf g name rule]
        ParseRepetitionRule.simps[of pf g name rule] ParseSingleRule_def
        split: if_splits sum.splits prod.splits
        intro: sel seq rep lnd single)
qed

lemma ParseRule_registers_string:
  "ParseRule (Grammar_string st ind) g name rule = Inr g' \<Longrightarrow> registered g' name"
  by (rule ParseRule_registers[of "Grammar_string st ind"])
    (auto simp: Grammar_string_def intro: AddSingleRule_string_registers)

lemma ParseRule_registers_other:
  "ParseRule (Grammar_other st ind) g name rule = Inr g' \<Longrightarrow> registered g' name"
  by (rule ParseRule_registers[of "Grammar_other st ind"])
    (auto simp: Grammar_other_def intro: AddSingleRule_registers)

declare release.simps [simp del]

subsection \<open>The frame of compiling a subrule\<close>

text \<open>
  A token without a registry entry is compiled as \<^verbatim>\<open>ParseRule(rule, rule)\<close>. Its own
  subrules are shorter than the token, so the token is still unregistered when its node
  is stored: the store is the plain assignment, \<open>ChangeRule\<close> patches nothing, and the
  grammar only grows.
\<close>

lemma grows_refl: "grows A L g g"
  by (simp add: grows_def)

lemma grows_trans:
  assumes "grows A L1 g g1" and "grows A L2 g1 g2" and "L1 \<le> L" and "L2 \<le> L"
  shows "grows A L g g2"
  unfolding grows_def
proof (intro conjI allI impI)
  from assms(1,2) show "next_addr g \<le> next_addr g2" by (simp add: grows_def)
next
  fix n b assume "map_of (m_pRules g) n = Some b"
  with assms(1) have "map_of (m_pRules g1) n = Some b" by (simp add: grows_def)
  with assms(2) show "map_of (m_pRules g2) n = Some b" by (simp add: grows_def)
next
  fix b assume b: "b < next_addr g \<and> b \<notin> A"
  with assms(1) have 1: "nodes g1 b = nodes g b" and "b < next_addr g1" by (simp_all add: grows_def)
  with assms(2) b have "nodes g2 b = nodes g1 b" by (simp add: grows_def)
  with 1 show "nodes g2 b = nodes g b" by simp
next
  fix n assume n: "registered g2 n \<and> \<not> registered g n"
  show "length n \<le> L"
  proof (cases "registered g1 n")
    case True
    with n assms(1) have "length n \<le> L1" by (simp add: grows_def)
    with assms(3) show ?thesis by simp
  next
    case False
    with n assms(2) have "length n \<le> L2" by (simp add: grows_def)
    with assms(4) show ?thesis by simp
  qed
qed

lemma grows_weaken: "grows A L g g' \<Longrightarrow> A \<subseteq> B \<Longrightarrow> L \<le> M \<Longrightarrow> grows B M g g'"
  unfolding grows_def by (meson order_trans subsetD)

lemma grows_make_shared: "grows A L g (snd (make_shared g nd))"
  by (auto simp: grows_def make_shared_def registered_def)

lemma grows_AddElement: "grows {a} L g (AddElement g a p)"
  by (auto simp: grows_def AddElement_def registered_def split: option.splits node.splits)

lemma grows_AddOption: "AddOption g a p w = Inr g' \<Longrightarrow> grows {a} L g g'"
  by (auto simp: grows_def AddOption_def registered_def split: option.splits node.splits if_splits)

lemma grows_assign: "\<not> registered g name \<Longrightarrow> length name \<le> L \<Longrightarrow> grows A L g (assign g name a)"
  by (auto simp: grows_def map_of_assign registered_def)

lemma grows_registered: "grows A L g g' \<Longrightarrow> registered g n \<Longrightarrow> registered g' n"
  by (auto simp: grows_def registered_def)

lemma grows_lookup: "grows A L g g' \<Longrightarrow> registered g n \<Longrightarrow> lookup g' n = lookup g n"
  by (auto simp: grows_def registered_def lookup_def)

lemma grows_after_alloc:
  assumes "grows {next_addr g} M (snd (make_shared g nd)) g2"
  shows "grows {} M g g2"
proof -
  have "grows {next_addr g} M g (snd (make_shared g nd))" by (rule grows_make_shared)
  from grows_trans[OF this assms order_refl order_refl]
  show ?thesis by (auto simp: grows_def)
qed

lemma fresh_install:
  assumes "grows {} M g g2" and "M < length name" and "\<not> registered g name"
  shows "grows {} (length name) g
           (if registered g2 name then ChangeRule g2 name a else assign g2 name a)"
proof -
  from assms have nr: "\<not> registered g2 name" by (auto simp: grows_def)
  have "grows {} (length name) g2 (assign g2 name a)" by (rule grows_assign[OF nr order_refl])
  from grows_trans[OF assms(1) this _ order_refl] assms(2) nr show ?thesis by simp
qed

lemma AddSingleRule_string_grows:
  assumes "\<not> registered g t" and "AddSingleRule_string g t t = Inr g'"
  shows "grows {} (length t) g g'"
proof -
  let ?g0 = "snd (make_shared g (LeafNode t))"
  let ?g1 = "assign ?g0 t (next_addr g)"
  have "ChangeRule ?g1 t (lookup ?g1 t) = ?g1" by (simp add: ChangeRule_unfold)
  with assms have g': "g' = ?g1"
    by (simp add: AddSingleRule_string_def make_shared_def Let_def)
  from assms(1) have "\<not> registered ?g0 t" by (simp add: make_shared_def registered_def)
  from grows_trans[OF grows_make_shared grows_assign[OF this order_refl] order_refl order_refl]
  show ?thesis unfolding g' .
qed

lemma AddSingleRule_grows:
  assumes "\<not> registered g t" and "AddSingleRule g t t = Inr g'"
  shows "grows {} (length t) g g'"
  using assms by (simp add: AddSingleRule_def)

lemma resolve_grows:
  assumes H: "\<And>t g g'. length t < N \<Longrightarrow> \<not> registered g t \<Longrightarrow> ParseRule pf g t t = Inr g'
                \<Longrightarrow> grows {} (length t) g g'"
    and "length t < N" and "resolve_or_compile pf g t = Inr g1"
  shows "grows {} (length t) g g1"
proof (cases "registered g t")
  case True
  with assms(3) have "g1 = g" by (simp add: resolve_or_compile_def)
  then show ?thesis by (simp add: grows_refl)
next
  case False
  with assms(3) have "ParseRule pf g t t = Inr g1" by (simp add: resolve_or_compile_def)
  from H[OF assms(2) False this] show ?thesis .
qed

lemma AddSequenceRule_loop_unfold:
  "AddSequenceRule_loop pf g a (t # ts) =
     (case resolve_or_compile pf g t of
        Inl e \<Rightarrow> Inl e
      | Inr g1 \<Rightarrow> AddSequenceRule_loop pf (AddElement g1 a (lookup g1 t)) a ts)"
  by (simp add: AddSequenceRule_loop.simps(2)[of pf g a t ts] resolve_or_compile_def)

lemma AddSelectorRule_loop_unfold:
  "AddSelectorRule_loop pf g a ((t, w) # rs) =
     (case resolve_or_compile pf g t of
        Inl e \<Rightarrow> Inl e
      | Inr g1 \<Rightarrow>
          (case AddOption g1 a (lookup g1 t) w of
             Inl e \<Rightarrow> Inl e
           | Inr g2 \<Rightarrow> AddSelectorRule_loop pf g2 a rs))"
  by (simp add: AddSelectorRule_loop.simps(2)[of pf g a "(t, w)" rs] resolve_or_compile_def
      cong: sum.case_cong)

lemma AddSequenceRule_loop_grows:
  assumes H: "\<And>t g g'. length t < N \<Longrightarrow> \<not> registered g t \<Longrightarrow> ParseRule pf g t t = Inr g'
                \<Longrightarrow> grows {} (length t) g g'"
  shows "maxlen ts < N \<Longrightarrow> AddSequenceRule_loop pf g a ts = Inr g' \<Longrightarrow> grows {a} (maxlen ts) g g'"
proof (induction ts arbitrary: g)
  case Nil
  then show ?case by (simp add: AddSequenceRule_loop.simps(1) grows_refl)
next
  case (Cons t ts)
  from Cons.prems(2) obtain g1 where g1: "resolve_or_compile pf g t = Inr g1"
    and rest: "AddSequenceRule_loop pf (AddElement g1 a (lookup g1 t)) a ts = Inr g'"
    by (auto simp: AddSequenceRule_loop_unfold split: sum.splits)
  from Cons.prems(1) have lt: "length t < N" and lts: "maxlen ts < N" by simp_all
  have 1: "grows {a} (length t) g g1"
    by (rule grows_weaken[OF resolve_grows[OF H lt g1]]) simp_all
  have 2: "grows {a} (length t) g1 (AddElement g1 a (lookup g1 t))" by (rule grows_AddElement)
  have 3: "grows {a} (maxlen ts) (AddElement g1 a (lookup g1 t)) g'" by (rule Cons.IH[OF lts rest])
  have "grows {a} (length t) g (AddElement g1 a (lookup g1 t))"
    by (rule grows_trans[OF 1 2 order_refl order_refl])
  from grows_trans[OF this 3, of "maxlen (t # ts)"] show ?case by simp
qed

lemma AddSelectorRule_loop_grows:
  assumes H: "\<And>t g g'. length t < N \<Longrightarrow> \<not> registered g t \<Longrightarrow> ParseRule pf g t t = Inr g'
                \<Longrightarrow> grows {} (length t) g g'"
  shows "maxlen (map fst rs) < N \<Longrightarrow> AddSelectorRule_loop pf g a rs = Inr g'
           \<Longrightarrow> grows {a} (maxlen (map fst rs)) g g'"
proof (induction rs arbitrary: g)
  case Nil
  then show ?case by (simp add: AddSelectorRule_loop.simps(1) grows_refl)
next
  case (Cons r rs)
  obtain t w where r: "r = (t, w)" by (cases r)
  from Cons.prems(2) obtain g1 g2 where g1: "resolve_or_compile pf g t = Inr g1"
    and g2: "AddOption g1 a (lookup g1 t) w = Inr g2"
    and rest: "AddSelectorRule_loop pf g2 a rs = Inr g'"
    by (auto simp: r AddSelectorRule_loop_unfold split: sum.splits)
  from Cons.prems(1) have lt: "length t < N" and lts: "maxlen (map fst rs) < N" by (simp_all add: r)
  have 1: "grows {a} (length t) g g1"
    by (rule grows_weaken[OF resolve_grows[OF H lt g1]]) simp_all
  have 2: "grows {a} (length t) g1 g2" by (rule grows_AddOption[OF g2])
  have 3: "grows {a} (maxlen (map fst rs)) g2 g'" by (rule Cons.IH[OF lts rest])
  have "grows {a} (length t) g g2"
    by (rule grows_trans[OF 1 2 order_refl order_refl])
  from grows_trans[OF this 3, of "maxlen (map fst (r # rs))"] show ?case by (simp add: r)
qed

text \<open>The operator rules, for a name that is not registered and is longer than its subrules.\<close>

lemma AddSequenceRule_unfold:
  "AddSequenceRule pf g name ts =
     (case AddSequenceRule_loop pf (snd (make_shared g (SequenceNode []))) (next_addr g) ts of
        Inl e \<Rightarrow> Inl e
      | Inr g2 \<Rightarrow> Inr (if registered g2 name then ChangeRule g2 name (next_addr g)
                        else assign g2 name (next_addr g)))"
  by (simp add: AddSequenceRule.simps[of pf g name ts] make_shared_def split: sum.splits)

lemma AddSelectorRule_unfold:
  "AddSelectorRule pf g name rs =
     (case AddSelectorRule_loop pf (snd (make_shared g (SelectNode []))) (next_addr g) rs of
        Inl e \<Rightarrow> Inl e
      | Inr g2 \<Rightarrow> Inr (if registered g2 name then ChangeRule g2 name (next_addr g)
                        else assign g2 name (next_addr g)))"
  by (simp add: AddSelectorRule.simps[of pf g name rs] make_shared_def split: sum.splits)

lemma AddLNodeRule_unfold:
  "AddLNodeRule pf g name x y =
     (case resolve_or_compile pf g x of
        Inl e \<Rightarrow> Inl e
      | Inr g1 \<Rightarrow>
          (case resolve_or_compile pf g1 y of
             Inl e \<Rightarrow> Inl e
           | Inr g2 \<Rightarrow>
               Inr (let g3 = snd (make_shared g2 (LNode (lookup g2 x) (lookup g2 y)))
                    in if registered g3 name then ChangeRule g3 name (next_addr g2)
                       else assign g3 name (next_addr g2))))"
  by (simp add: AddLNodeRule.simps[of pf g name x y] make_shared_def resolve_or_compile_def Let_def
      split: sum.splits)

lemma AddRepetitionRule_unfold2:
  "AddRepetitionRule pf g name (A, n) =
     (case resolve_or_compile pf g A of
        Inl e \<Rightarrow> Inl e
      | Inr g1 \<Rightarrow>
          if n < 0 then Inl InvalidRepetitionCount
          else Inr (let g2 = snd (make_shared g1 (RepetitionNode (lookup g1 A) (nat \<lfloor>n\<rfloor>)))
                    in if registered g2 name then ChangeRule g2 name (next_addr g1)
                       else assign g2 name (next_addr g1)))"
  by (simp add: AddRepetitionRule_unfold make_shared_def Let_def split: sum.splits)

lemma AddLNodeRule_grows:
  assumes H: "\<And>t g g'. length t < length name \<Longrightarrow> \<not> registered g t \<Longrightarrow> ParseRule pf g t t = Inr g'
                \<Longrightarrow> grows {} (length t) g g'"
    and "length x < length name" and "length y < length name" and "\<not> registered g name"
    and "AddLNodeRule pf g name x y = Inr g'"
  shows "grows {} (length name) g g'"
proof -
  from assms(5) obtain g1 g2 where g1: "resolve_or_compile pf g x = Inr g1"
    and g2: "resolve_or_compile pf g1 y = Inr g2"
    and g': "g' = (let g3 = snd (make_shared g2 (LNode (lookup g2 x) (lookup g2 y)))
                   in if registered g3 name then ChangeRule g3 name (next_addr g2)
                      else assign g3 name (next_addr g2))"
    by (auto simp: AddLNodeRule_unfold split: sum.splits)
  let ?g3 = "snd (make_shared g2 (LNode (lookup g2 x) (lookup g2 y)))"
  let ?M = "max (length x) (length y)"
  have 1: "grows {} (length x) g g1" by (rule resolve_grows[OF H assms(2) g1])
  have 2: "grows {} (length y) g1 g2" by (rule resolve_grows[OF H assms(3) g2])
  have 12: "grows {} ?M g g2" by (rule grows_trans[OF 1 2]) simp_all
  have "grows {} ?M g ?g3" by (rule grows_trans[OF 12 grows_make_shared order_refl order_refl])
  from fresh_install[OF this _ assms(4), of "next_addr g2"] assms(2,3)
  show ?thesis by (simp add: g' Let_def)
qed

lemma AddRepetitionRule_grows:
  assumes H: "\<And>t g g'. length t < length name \<Longrightarrow> \<not> registered g t \<Longrightarrow> ParseRule pf g t t = Inr g'
                \<Longrightarrow> grows {} (length t) g g'"
    and "length A < length name" and "\<not> registered g name"
    and "AddRepetitionRule pf g name (A, n) = Inr g'"
  shows "grows {} (length name) g g'"
proof -
  from assms(4) obtain g1 where g1: "resolve_or_compile pf g A = Inr g1"
    and g': "g' = (let g2 = snd (make_shared g1 (RepetitionNode (lookup g1 A) (nat \<lfloor>n\<rfloor>)))
                   in if registered g2 name then ChangeRule g2 name (next_addr g1)
                      else assign g2 name (next_addr g1))"
    by (auto simp: AddRepetitionRule_unfold2 split: sum.splits if_splits)
  let ?g2 = "snd (make_shared g1 (RepetitionNode (lookup g1 A) (nat \<lfloor>n\<rfloor>)) :: addr \<times> 'a Grammar)"
  have 1: "grows {} (length A) g g1" by (rule resolve_grows[OF H assms(2) g1])
  have "grows {} (length A) g ?g2" by (rule grows_trans[OF 1 grows_make_shared order_refl order_refl])
  from fresh_install[OF this assms(2,3), of "next_addr g1"]
  show ?thesis by (simp add: g' Let_def)
qed

lemma AddSequenceRule_grows:
  assumes H: "\<And>t g g'. length t < length name \<Longrightarrow> \<not> registered g t \<Longrightarrow> ParseRule pf g t t = Inr g'
                \<Longrightarrow> grows {} (length t) g g'"
    and "maxlen ts < length name" and "\<not> registered g name"
    and "AddSequenceRule pf g name ts = Inr g'"
  shows "grows {} (length name) g g'"
proof -
  from assms(4) obtain g2
    where g2: "AddSequenceRule_loop pf (snd (make_shared g (SequenceNode []))) (next_addr g) ts = Inr g2"
      and g': "g' = (if registered g2 name then ChangeRule g2 name (next_addr g)
                     else assign g2 name (next_addr g))"
    by (auto simp: AddSequenceRule_unfold split: sum.splits)
  from grows_after_alloc[OF AddSequenceRule_loop_grows[OF H assms(2) g2]]
  have "grows {} (maxlen ts) g g2" .
  from fresh_install[OF this assms(2,3), of "next_addr g"] show ?thesis by (simp add: g')
qed

lemma AddSelectorRule_grows:
  assumes H: "\<And>t g g'. length t < length name \<Longrightarrow> \<not> registered g t \<Longrightarrow> ParseRule pf g t t = Inr g'
                \<Longrightarrow> grows {} (length t) g g'"
    and "maxlen (map fst rs) < length name" and "\<not> registered g name"
    and "AddSelectorRule pf g name rs = Inr g'"
  shows "grows {} (length name) g g'"
proof -
  from assms(4) obtain g2
    where g2: "AddSelectorRule_loop pf (snd (make_shared g (SelectNode []))) (next_addr g) rs = Inr g2"
      and g': "g' = (if registered g2 name then ChangeRule g2 name (next_addr g)
                     else assign g2 name (next_addr g))"
    by (auto simp: AddSelectorRule_unfold split: sum.splits)
  from grows_after_alloc[OF AddSelectorRule_loop_grows[OF H assms(2) g2]]
  have "grows {} (maxlen (map fst rs)) g g2" .
  from fresh_install[OF this assms(2,3), of "next_addr g"] show ?thesis by (simp add: g')
qed

lemma ParseRule_grows:
  assumes single: "\<And>g t g'. \<not> registered g t \<Longrightarrow> single_rule pf g t t = Inr g'
                     \<Longrightarrow> grows {} (length t) g g'"
  shows "\<not> registered g t \<Longrightarrow> ParseRule pf g t t = Inr g' \<Longrightarrow> grows {} (length t) g g'"
proof (induction "length t" arbitrary: t g g' rule: less_induct)
  case less
  have H: "\<And>t' g g'. length t' < length t \<Longrightarrow> \<not> registered g t' \<Longrightarrow> ParseRule pf g t' t' = Inr g'
             \<Longrightarrow> grows {} (length t') g g'"
    by (rule less.hyps)
  note nr = less.prems(1) and ok = less.prems(2)
  show ?case
  proof (cases "string_find t LND_DEL 0")
    case (Some k)
    with ok have "ParseLNodeRule pf g t t = Inr g'" by (simp add: ParseRule.simps[of pf g t t])
    then obtain x y where ops: "LNode_operands (indeterminate pf) t = Inr (x, y)"
      and add: "AddLNodeRule pf g t x y = Inr g'"
      by (auto simp: ParseLNodeRule.simps[of pf g t t] split: sum.splits)
    from LNode_names_shorter[OF Some ops] AddLNodeRule_grows[OF H _ _ nr add]
    show ?thesis by blast
  next
    case lnd: None
    show ?thesis
    proof (cases "string_find t SEQ_DEL 0")
      case (Some k)
      with ok lnd have "AddSequenceRule pf g t (split_loop t SEQ_DEL 0) = Inr g'"
        by (simp add: ParseRule.simps[of pf g t t] ParseSequenceRule.simps[of pf g t t])
      from AddSequenceRule_grows[OF H sequence_names_shorter[OF Some] nr this]
      show ?thesis .
    next
      case seq: None
      show ?thesis
      proof (cases "string_find t SEL_DEL 0")
        case (Some k)
        with ok lnd seq have "ParseSelectorRule pf g t t = Inr g'"
          by (simp add: ParseRule.simps[of pf g t t])
        then obtain wrs where wrs: "weightedRules_of (stof pf) (split_loop t SEL_DEL 0) = Inr wrs"
          and add: "AddSelectorRule pf g t wrs = Inr g'"
          by (auto simp: ParseSelectorRule.simps[of pf g t t] split: sum.splits)
        from AddSelectorRule_grows[OF H selector_names_shorter[OF Some wrs] nr add]
        show ?thesis .
      next
        case sel: None
        show ?thesis
        proof (cases "string_find t REP_DEL 0")
          case (Some k)
          with ok lnd seq sel have "ParseRepetitionRule pf g t t = Inr g'"
            by (simp add: ParseRule.simps[of pf g t t])
          then obtain A n where rr: "repeatedRule_of (stof pf) t = Inr (A, n)"
            and add: "AddRepetitionRule pf g t (A, n) = Inr g'"
            by (auto simp: ParseRepetitionRule.simps[of pf g t t] split: sum.splits)
          from repetition_name_shorter[OF Some rr] have "length A < length t" by simp
          from AddRepetitionRule_grows[OF H this nr add] show ?thesis .
        next
          case rep: None
          with ok lnd seq sel have "single_rule pf g t t = Inr g'"
            by (simp add: ParseRule.simps[of pf g t t] ParseSingleRule_def)
          from single[OF nr this] show ?thesis .
        qed
      qed
    qed
  qed
qed

subsection \<open>Compiling a rule under a registered name\<close>

text \<open>
  When the name has a registry entry, every path of \<open>ParseRule\<close> ends in \<open>ChangeRule\<close>
  on a grammar that has only grown since the call.
\<close>

lemma resolve_grows_all:
  assumes single: "\<And>g t g'. \<not> registered g t \<Longrightarrow> single_rule pf g t t = Inr g'
                     \<Longrightarrow> grows {} (length t) g g'"
    and "resolve_or_compile pf g t = Inr g1"
  shows "grows {} (length t) g g1"
  by (rule resolve_grows[OF ParseRule_grows[OF single] lessI assms(2)])

lemma ChangeRule_patches:
  assumes "map_of (m_pRules (ChangeRule g ruleName newNode)) n = Some b"
  shows "nodes (ChangeRule g ruleName newNode) b =
           map_option (\<lambda>nd. SwapDependingNode nd (lookup g ruleName) newNode) (nodes g b)"
proof (cases "lookup g ruleName = newNode")
  case True
  then show ?thesis by (simp add: ChangeRule_unfold option.map_ident)
next
  case False
  from ChangeRule_registered_nodes[OF False assms] show ?thesis .
qed

lemma AddSingleRule_string_redefines:
  assumes "registered g name" and "AddSingleRule_string g name rule = Inr g'"
  shows "\<exists>gm newNode L. grows {} L g gm \<and> g' = ChangeRule gm name newNode"
proof -
  let ?g1 = "if \<not> registered g rule
             then assign (snd (make_shared g (LeafNode rule))) rule (next_addr g) else g"
  have gr: "grows {} (length rule) g ?g1"
  proof (cases "registered g rule")
    case True
    then show ?thesis by (simp add: grows_refl)
  next
    case False
    then have "\<not> registered (snd (make_shared g (LeafNode rule))) rule"
      by (simp add: make_shared_def registered_def)
    from grows_trans[OF grows_make_shared grows_assign[OF this order_refl] order_refl order_refl] False
    show ?thesis by simp
  qed
  from grows_registered[OF gr assms(1)] assms(2)
  have "g' = ChangeRule ?g1 name (lookup ?g1 rule)"
    by (simp add: AddSingleRule_string_def make_shared_def Let_def split: if_splits)
  with gr show ?thesis by blast
qed

lemma AddSingleRule_redefines:
  assumes "registered g name" and "AddSingleRule g name rule = Inr g'"
  shows "\<exists>gm newNode L. grows {} L g gm \<and> g' = ChangeRule gm name newNode"
proof -
  from assms have "g' = ChangeRule g name (lookup g rule)"
    by (simp add: AddSingleRule_def split: if_splits)
  with grows_refl[of "{}" 0 g] show ?thesis by blast
qed

lemma ParseRule_redefines:
  assumes single: "\<And>g t g'. \<not> registered g t \<Longrightarrow> single_rule pf g t t = Inr g'
                     \<Longrightarrow> grows {} (length t) g g'"
    and top: "\<And>g n r g'. registered g n \<Longrightarrow> single_rule pf g n r = Inr g'
                     \<Longrightarrow> \<exists>gm newNode L. grows {} L g gm \<and> g' = ChangeRule gm n newNode"
    and reg: "registered g name" and ok: "ParseRule pf g name rule = Inr g'"
  shows "\<exists>gm newNode L. grows {} L g gm \<and> g' = ChangeRule gm name newNode"
proof -
  note H = ParseRule_grows[OF single]
  have lnd: ?thesis if add: "AddLNodeRule pf g name x y = Inr g'" for x y
  proof -
    from add obtain g1 g2 where g1: "resolve_or_compile pf g x = Inr g1"
      and g2: "resolve_or_compile pf g1 y = Inr g2"
      and g': "g' = (let g3 = snd (make_shared g2 (LNode (lookup g2 x) (lookup g2 y)))
                     in if registered g3 name then ChangeRule g3 name (next_addr g2)
                        else assign g3 name (next_addr g2))"
      by (auto simp: AddLNodeRule_unfold split: sum.splits)
    let ?g3 = "snd (make_shared g2 (LNode (lookup g2 x) (lookup g2 y)))"
    have 1: "grows {} (length x) g g1" by (rule resolve_grows_all[OF single g1])
    have 2: "grows {} (length y) g1 g2" by (rule resolve_grows_all[OF single g2])
    have 12: "grows {} (max (length x) (length y)) g g2" by (rule grows_trans[OF 1 2]) simp_all
    have 3: "grows {} (max (length x) (length y)) g ?g3"
      by (rule grows_trans[OF 12 grows_make_shared order_refl order_refl])
    from grows_registered[OF 3 reg] g' have "g' = ChangeRule ?g3 name (next_addr g2)"
      by (simp add: Let_def)
    with 3 show ?thesis by blast
  qed
  have rep: ?thesis if add: "AddRepetitionRule pf g name (A, n) = Inr g'" for A n
  proof -
    from add obtain g1 where g1: "resolve_or_compile pf g A = Inr g1"
      and g': "g' = (let g2 = snd (make_shared g1 (RepetitionNode (lookup g1 A) (nat \<lfloor>n\<rfloor>)))
                     in if registered g2 name then ChangeRule g2 name (next_addr g1)
                        else assign g2 name (next_addr g1))"
      by (auto simp: AddRepetitionRule_unfold2 split: sum.splits if_splits)
    let ?g2 = "snd (make_shared g1 (RepetitionNode (lookup g1 A) (nat \<lfloor>n\<rfloor>)) :: addr \<times> 'a Grammar)"
    have 1: "grows {} (length A) g g1" by (rule resolve_grows_all[OF single g1])
    have 2: "grows {} (length A) g ?g2"
      by (rule grows_trans[OF 1 grows_make_shared order_refl order_refl])
    from grows_registered[OF 2 reg] g' have "g' = ChangeRule ?g2 name (next_addr g1)"
      by (simp add: Let_def)
    with 2 show ?thesis by blast
  qed
  have seq: ?thesis if add: "AddSequenceRule pf g name ts = Inr g'" for ts
  proof -
    from add obtain g2
      where g2: "AddSequenceRule_loop pf (snd (make_shared g (SequenceNode []))) (next_addr g) ts = Inr g2"
        and g': "g' = (if registered g2 name then ChangeRule g2 name (next_addr g)
                       else assign g2 name (next_addr g))"
      by (auto simp: AddSequenceRule_unfold split: sum.splits)
    from grows_after_alloc[OF AddSequenceRule_loop_grows[OF H lessI g2]]
    have 1: "grows {} (maxlen ts) g g2" .
    from grows_registered[OF 1 reg] g' have "g' = ChangeRule g2 name (next_addr g)" by simp
    with 1 show ?thesis by blast
  qed
  have sel: ?thesis if add: "AddSelectorRule pf g name rs = Inr g'" for rs
  proof -
    from add obtain g2
      where g2: "AddSelectorRule_loop pf (snd (make_shared g (SelectNode []))) (next_addr g) rs = Inr g2"
        and g': "g' = (if registered g2 name then ChangeRule g2 name (next_addr g)
                       else assign g2 name (next_addr g))"
      by (auto simp: AddSelectorRule_unfold split: sum.splits)
    from grows_after_alloc[OF AddSelectorRule_loop_grows[OF H lessI g2]]
    have 1: "grows {} (maxlen (map fst rs)) g g2" .
    from grows_registered[OF 1 reg] g' have "g' = ChangeRule g2 name (next_addr g)" by simp
    with 1 show ?thesis by blast
  qed
  from ok consider
      x y where "AddLNodeRule pf g name x y = Inr g'"
    | "AddSequenceRule pf g name (split_loop rule SEQ_DEL 0) = Inr g'"
    | rs where "AddSelectorRule pf g name rs = Inr g'"
    | A n where "AddRepetitionRule pf g name (A, n) = Inr g'"
    | "single_rule pf g name rule = Inr g'"
    by (auto simp: ParseRule.simps[of pf g name rule] ParseLNodeRule.simps[of pf g name rule]
        ParseSequenceRule.simps[of pf g name rule] ParseSelectorRule.simps[of pf g name rule]
        ParseRepetitionRule.simps[of pf g name rule] ParseSingleRule_def
        split: if_splits sum.splits prod.splits)
  then show ?thesis
  proof cases
    case 1 then show ?thesis by (rule lnd)
  next
    case 2 then show ?thesis by (rule seq)
  next
    case 3 then show ?thesis by (rule sel)
  next
    case 4 then show ?thesis by (rule rep)
  next
    case 5 then show ?thesis by (rule top[OF reg])
  qed
qed

lemma redefinition_effect:
  assumes gr: "grows {} L g gm" and reg: "registered g name"
    and g': "g' = ChangeRule gm name newNode"
  shows "map_of (m_pRules g') name = Some newNode"
    and "n \<noteq> name \<Longrightarrow> map_of (m_pRules g) n = Some b \<Longrightarrow> b < next_addr g \<Longrightarrow>
           map_of (m_pRules g') n = Some b \<and>
           nodes g' b = map_option (\<lambda>nd. SwapDependingNode nd (lookup g name) newNode) (nodes g b)"
proof -
  from grows_registered[OF gr reg] have regm: "registered gm name" .
  show "map_of (m_pRules g') name = Some newNode"
    unfolding g' by (rule ChangeRule_entry[OF regm])
  assume n: "n \<noteq> name" and b: "map_of (m_pRules g) n = Some b" and lt: "b < next_addr g"
  from gr b have bm: "map_of (m_pRules gm) n = Some b" by (simp add: grows_def)
  with n have e: "map_of (m_pRules g') n = Some b" by (simp add: g' ChangeRule_other_entries)
  from gr lt have same: "nodes gm b = nodes g b" by (simp add: grows_def)
  from ChangeRule_patches[OF e[unfolded g']] same grows_lookup[OF gr reg]
  have "nodes g' b = map_option (\<lambda>nd. SwapDependingNode nd (lookup g name) newNode) (nodes g b)"
    by (simp add: g')
  with e show "map_of (m_pRules g') n = Some b \<and>
           nodes g' b = map_option (\<lambda>nd. SwapDependingNode nd (lookup g name) newNode) (nodes g b)"
    by simp
qed

lemma ParseRule_redefines_string:
  assumes "registered g name" and "ParseRule (Grammar_string st ind) g name rule = Inr g'"
  shows "\<exists>gm newNode L. grows {} L g gm \<and> g' = ChangeRule gm name newNode"
proof (rule ParseRule_redefines[OF _ _ assms])
  fix g t g' assume "\<not> registered g t" and "single_rule (Grammar_string st ind) g t t = Inr g'"
  then show "grows {} (length t) g g'"
    using AddSingleRule_string_grows[of g t g'] by (simp add: Grammar_string_def)
next
  fix g n r g' assume "registered g n" and "single_rule (Grammar_string st ind) g n r = Inr g'"
  then show "\<exists>gm newNode L. grows {} L g gm \<and> g' = ChangeRule gm n newNode"
    using AddSingleRule_string_redefines[of g n r g'] by (simp only: Grammar_string_def platform.simps)
qed

lemma ParseRule_redefines_other:
  assumes "registered g name" and "ParseRule (Grammar_other st ind) g name rule = Inr g'"
  shows "\<exists>gm newNode L. grows {} L g gm \<and> g' = ChangeRule gm name newNode"
proof (rule ParseRule_redefines[OF _ _ assms])
  fix g :: "'a Grammar" and t g'
  assume "\<not> registered g t" and "single_rule (Grammar_other st ind) g t t = Inr g'"
  then show "grows {} (length t) g g'"
    using AddSingleRule_grows[of g t g'] by (simp add: Grammar_other_def)
next
  fix g :: "'a Grammar" and n r g'
  assume "registered g n" and "single_rule (Grammar_other st ind) g n r = Inr g'"
  then show "\<exists>gm newNode L. grows {} L g gm \<and> g' = ChangeRule gm n newNode"
    using AddSingleRule_redefines[of g n r g'] by (simp only: Grammar_other_def platform.simps)
qed

lemma redefinition_patches:
  assumes stage: "\<exists>gm newNode L. grows {} L g gm \<and> g' = ChangeRule gm name newNode"
    and reg: "registered g name"
  shows "registered g' name \<and>
       (\<forall>n b. n \<noteq> name \<and> map_of (m_pRules g) n = Some b \<and> b < next_addr g \<longrightarrow>
          map_of (m_pRules g') n = Some b \<and>
          nodes g' b =
            map_option (\<lambda>nd. SwapDependingNode nd (lookup g name) (lookup g' name)) (nodes g b)) \<and>
       (\<forall>n b es fuel maxDepth rnd depth i.
          n \<noteq> name \<and> map_of (m_pRules g) n = Some b \<and> b < next_addr g \<and>
          nodes g b = Some (SequenceNode es) \<longrightarrow>
          Parse (Suc fuel) (nodes g') maxDepth rnd b depth i =
            Parse_all fuel (nodes g') maxDepth rnd
              (map (\<lambda>p. if p = lookup g name then lookup g' name else p) es) depth i)"
proof -
  from stage obtain gm newNode L where gr: "grows {} L g gm" and g': "g' = ChangeRule gm name newNode"
    by blast
  note eff = redefinition_effect[OF gr reg g']
  from eff(1) have r: "registered g' name" and lk: "lookup g' name = newNode"
    by (simp_all add: registered_def lookup_def)
  have nodes: "map_of (m_pRules g') n = Some b \<and>
          nodes g' b =
            map_option (\<lambda>nd. SwapDependingNode nd (lookup g name) (lookup g' name)) (nodes g b)"
    if "n \<noteq> name \<and> map_of (m_pRules g) n = Some b \<and> b < next_addr g" for n b
    using eff(2)[of n b] that lk by simp
  have seq: "Parse (Suc fuel) (nodes g') maxDepth rnd b depth i =
            Parse_all fuel (nodes g') maxDepth rnd
              (map (\<lambda>p. if p = lookup g name then lookup g' name else p) es) depth i"
    if "n \<noteq> name \<and> map_of (m_pRules g) n = Some b \<and> b < next_addr g \<and>
          nodes g b = Some (SequenceNode es)" for n b es fuel maxDepth rnd depth i
  proof -
    from nodes[of n b] that
    have "nodes g' b = Some (SequenceNode (map (swap_ptr (lookup g name) (lookup g' name)) es))"
      by simp
    moreover have "swap_ptr (lookup g name) (lookup g' name) =
        (\<lambda>p. if p = lookup g name then lookup g' name else p)"
      by (rule ext) (simp add: swap_ptr_def)
    ultimately show ?thesis by simp
  qed
  from r nodes seq show ?thesis by blast
qed

subsection \<open>Weights and counts\<close>







lemma repetition_dispatch:
  assumes "\<not> sublist LND_DEL rule" and "\<not> sublist SEQ_DEL rule" and "\<not> sublist SEL_DEL rule"
    and "string_find rule REP_DEL 0 = Some k"
  shows "ParseRule pf g name rule = ParseRepetitionRule pf g name rule"
proof -
  from assms(4) have "sublist REP_DEL rule" using string_find_sublist[of rule REP_DEL] by simp
  with assms(1-3) show ?thesis
    by (simp only: ParseRule.simps[of pf g name rule] string_find_sublist if_True if_False)
qed




subsection \<open>Grammars for the examples\<close>

text \<open>The sequence \<^verbatim>\<open>t = a & c\<close> over two auto-created leaves, in \<^verbatim>\<open>Grammar<std::string>\<close>.\<close>

definition sequence_grammar :: "string Grammar" where
  "sequence_grammar =
     (case ParseRule string_grammar Grammar_new ''t'' ''a & c'' of Inr g \<Rightarrow> g | Inl e \<Rightarrow> Grammar_new)"

text \<open>The same sequence in \<^verbatim>\<open>Grammar<unsigned>\<close>, over two leaves registered with
  \<^verbatim>\<open>AddLeaveNode\<close> beforehand.\<close>

definition number_grammar :: "nat Grammar" where
  "number_grammar =
     (case ParseRule nat_grammar (AddLeaveNode (AddLeaveNode Grammar_new ''a'' 1) ''c'' 2) ''t'' ''a & c'' of
        Inr g \<Rightarrow> g | Inl e \<Rightarrow> Grammar_new)"


text \<open>A store for the fallback example: node 1 is \<^verbatim>\<open>LNode\<close> over the leaves 2 and 3.\<close>

definition fallback_store :: "addr \<Rightarrow> string node option" where
  "fallback_store = (\<lambda>_. None)(1 \<mapsto> LNode 2 3, 2 \<mapsto> LeafNode ''A'', 3 \<mapsto> LeafNode ''B'')"

section \<open>The claims\<close>

subsection \<open>C3: the precedence of the operators\<close>

text \<open>
  Claim C3. For every rule text, \<open>ParseRule\<close> dispatches on the first delimiter that is
  present in the fixed order \<^verbatim>\<open>" -> "\<close>, \<^verbatim>\<open>" & "\<close>, \<^verbatim>\<open>" | "\<close>, \<^verbatim>\<open>" # "\<close>, wherever
  the delimiters stand in the text, and a text with none of the four is handed to
  \<^verbatim>\<open>ParseSingleRule\<close>, the atomic reference. Presence of a delimiter is stated as
  \<open>sublist\<close>, not through the search function of the model.
\<close>

theorem ParseRule_precedence:
  "ParseRule pf g name rule =
     (if sublist LND_DEL rule then ParseLNodeRule pf g name rule
      else if sublist SEQ_DEL rule then ParseSequenceRule pf g name rule
      else if sublist SEL_DEL rule then ParseSelectorRule pf g name rule
      else if sublist REP_DEL rule then ParseRepetitionRule pf g name rule
      else ParseSingleRule pf g name rule)"
  by (simp only: ParseRule.simps[of pf g name rule] string_find_sublist)

subsection \<open>C4: the depth guard of the fallback node\<close>

text \<open>
  Claim C4. A fallback node evaluated with a depth strictly below the configured maximum
  evaluates its primary branch (with the depth incremented); at or beyond the maximum it
  evaluates its fallback branch. With one more unit of fuel the node returns exactly
  what the chosen branch returns.
\<close>

theorem LNode_Parse_depth:
  "h p = Some (LNode pr fb) \<Longrightarrow>
     (depth < maxDepth \<longrightarrow>
        Parse (Suc n) h maxDepth rnd p depth i = Parse n h maxDepth rnd pr (Suc depth) i) \<and>
     (maxDepth \<le> depth \<longrightarrow>
        Parse (Suc n) h maxDepth rnd p depth i = Parse n h maxDepth rnd fb depth i)"
  by simp

text \<open>Witness for C4: the fallback node of the example store at depth 0 and at depth 1, with the
  maximum 1.\<close>

theorem LNode_Parse_depth_witness:
  "Parse 2 fallback_store 1 (\<lambda>_. 0) 1 0 0 = Some (Inr ([''A''], 0)) \<and>
   Parse 2 fallback_store 1 (\<lambda>_. 0) 1 1 0 = Some (Inr ([''B''], 0))"
proof -
  have h: "fallback_store 1 = Some (LNode 2 3)" by (simp add: fallback_store_def)
  have a: "Parse 1 fallback_store 1 (\<lambda>_. 0) 2 (Suc 0) 0 = Some (Inr ([''A''], 0))"
    by (simp add: fallback_store_def)
  have b: "Parse 1 fallback_store 1 (\<lambda>_. 0) 3 1 0 = Some (Inr ([''B''], 0))"
    by (simp add: fallback_store_def)
  from LNode_Parse_depth[of fallback_store 1 2 3 0 1 1 "\<lambda>_. 0" 0] h a
  have "Parse (Suc 1) fallback_store 1 (\<lambda>_. 0) 1 0 0 = Some (Inr ([''A''], 0))" by simp
  moreover from LNode_Parse_depth[of fallback_store 1 2 3 1 1 1 "\<lambda>_. 0" 0] h b
  have "Parse (Suc 1) fallback_store 1 (\<lambda>_. 0) 1 1 0 = Some (Inr ([''B''], 0))" by simp
  ultimately show ?thesis by (simp add: numeral_2_eq_2)
qed

subsection \<open>C7: the atomic rule\<close>

text \<open>
  Claim C7. Let the rule text hold none of the four delimiters. When the token has no
  registry entry, \<^verbatim>\<open>Grammar<std::string>\<close> creates exactly one node, a leaf holding the
  token, and registers it under the token, and every other payload type throws
  \<open>Rule404Exception\<close>. When the token resolves (it was registered, or the leaf has just
  been created), the name is registered to that very node and no node is created for
  the name.
\<close>

theorem atomic_rule_alias:
  assumes "\<not> sublist LND_DEL rule" "\<not> sublist SEQ_DEL rule" "\<not> sublist SEL_DEL rule"
    "\<not> sublist REP_DEL rule"
  shows
   "(\<not> registered g rule \<longrightarrow>
      (\<exists>g'. ParseRule (Grammar_string st ind) g name rule = Inr g' \<and>
            nodes g' (next_addr g) = Some (LeafNode rule) \<and>
            map_of (m_pRules g') rule = Some (next_addr g) \<and>
            map_of (m_pRules g') name = Some (next_addr g) \<and>
            next_addr g' = Suc (next_addr g))) \<and>
    (\<not> registered h rule \<longrightarrow> ParseRule (Grammar_other st ind) h name rule = Inl Rule404Exception) \<and>
    (\<forall>b. map_of (m_pRules g) rule = Some b \<longrightarrow>
      (\<exists>g'. ParseRule (Grammar_string st ind) g name rule = Inr g' \<and>
            map_of (m_pRules g') name = Some b \<and> next_addr g' = next_addr g)) \<and>
    (\<forall>b. map_of (m_pRules h) rule = Some b \<longrightarrow>
      (\<exists>h'. ParseRule (Grammar_other st ind) h name rule = Inr h' \<and>
            map_of (m_pRules h') name = Some b \<and> next_addr h' = next_addr h))"
proof -
  have s: "ParseRule (Grammar_string st ind) g name rule = AddSingleRule_string g name rule"
    by (simp add: no_operator_single[OF assms] Grammar_string_def)
  have t: "ParseRule (Grammar_other st ind) h name rule = AddSingleRule h name rule"
    by (simp add: no_operator_single[OF assms] Grammar_other_def)
  show ?thesis
    unfolding s t
    using AddSingleRule_string_fresh[of g rule name] AddSingleRule_string_resolved[of g rule _ name]
      AddSingleRule_resolved[of h rule _ name]
    by (auto simp: AddSingleRule_def)
qed

text \<open>Witness for C7: the atomic rule \<^verbatim>\<open>n = a\<close> in the empty grammar and in a grammar where
  \<^verbatim>\<open>a\<close> is a registered leaf, for the string payload and for another payload.\<close>

theorem atomic_rule_alias_witness:
  "(\<exists>g'. ParseRule (Grammar_string stof_decimal length) Grammar_new ''n'' ''a'' = Inr g' \<and>
         nodes g' (next_addr (Grammar_new :: string Grammar)) = Some (LeafNode ''a'') \<and>
         map_of (m_pRules g') ''a'' = Some (next_addr (Grammar_new :: string Grammar)) \<and>
         map_of (m_pRules g') ''n'' = Some (next_addr (Grammar_new :: string Grammar)) \<and>
         next_addr g' = Suc (next_addr (Grammar_new :: string Grammar))) \<and>
   ParseRule (Grammar_other stof_decimal length) (Grammar_new :: nat Grammar) ''n'' ''a''
     = Inl Rule404Exception \<and>
   (\<exists>g'. ParseRule (Grammar_string stof_decimal length) (AddLeaveNode Grammar_new ''a'' ''v'') ''n'' ''a''
            = Inr g' \<and>
         map_of (m_pRules g') ''n'' = Some 1 \<and>
         next_addr g' = next_addr (AddLeaveNode (Grammar_new :: string Grammar) ''a'' ''v'')) \<and>
   (\<exists>h'. ParseRule (Grammar_other stof_decimal length) (AddLeaveNode Grammar_new ''a'' (7::nat)) ''n'' ''a''
            = Inr h' \<and>
         map_of (m_pRules h') ''n'' = Some 1 \<and>
         next_addr h' = next_addr (AddLeaveNode (Grammar_new :: nat Grammar) ''a'' 7))"
proof -
  have n: "\<not> sublist LND_DEL ''a''" "\<not> sublist SEQ_DEL ''a''" "\<not> sublist SEL_DEL ''a''"
    "\<not> sublist REP_DEL ''a''"
    by (rule not_sublist_eval, code_simp)+
  have u: "\<not> registered (Grammar_new :: string Grammar) ''a''"
    "\<not> registered (Grammar_new :: nat Grammar) ''a''"
    by (simp_all add: registered_def Grammar_new_def)
  have r: "map_of (m_pRules (AddLeaveNode (Grammar_new :: string Grammar) ''a'' ''v'')) ''a'' = Some 1"
    "map_of (m_pRules (AddLeaveNode (Grammar_new :: nat Grammar) ''a'' 7)) ''a'' = Some 1"
    by (simp_all add: AddLeaveNode_entry Grammar_new_def)
  from atomic_rule_alias[OF n, of "Grammar_new" stof_decimal length "''n''" "Grammar_new :: nat Grammar"] u
  have 1: "\<exists>g'. ParseRule (Grammar_string stof_decimal length) Grammar_new ''n'' ''a'' = Inr g' \<and>
         nodes g' (next_addr (Grammar_new :: string Grammar)) = Some (LeafNode ''a'') \<and>
         map_of (m_pRules g') ''a'' = Some (next_addr (Grammar_new :: string Grammar)) \<and>
         map_of (m_pRules g') ''n'' = Some (next_addr (Grammar_new :: string Grammar)) \<and>
         next_addr g' = Suc (next_addr (Grammar_new :: string Grammar))"
    and 2: "ParseRule (Grammar_other stof_decimal length) (Grammar_new :: nat Grammar) ''n'' ''a''
     = Inl Rule404Exception"
    by blast+
  from atomic_rule_alias[OF n, of "AddLeaveNode Grammar_new ''a'' ''v''" stof_decimal length "''n''"
      "AddLeaveNode Grammar_new ''a'' (7::nat)"] r
  have 3: "\<exists>g'. ParseRule (Grammar_string stof_decimal length) (AddLeaveNode Grammar_new ''a'' ''v'') ''n'' ''a''
            = Inr g' \<and>
         map_of (m_pRules g') ''n'' = Some 1 \<and>
         next_addr g' = next_addr (AddLeaveNode (Grammar_new :: string Grammar) ''a'' ''v'')"
    and 4: "\<exists>h'. ParseRule (Grammar_other stof_decimal length) (AddLeaveNode Grammar_new ''a'' (7::nat)) ''n'' ''a''
            = Inr h' \<and>
         map_of (m_pRules h') ''n'' = Some 1 \<and>
         next_addr h' = next_addr (AddLeaveNode (Grammar_new :: nat Grammar) ''a'' 7)"
    by blast+
  from 1 2 3 4 show ?thesis by blast
qed

subsection \<open>C8: generating from an unknown name\<close>

text \<open>
  Claim C8. For every name without a registry entry \<open>GenerateSequence\<close> throws
  \<open>Rule404Exception\<close>. It does so before any evaluation: the result is there with no
  fuel at all and whatever the store holds.
\<close>

theorem GenerateSequence_unregistered: "map_of (m_pRules g) ruleName = None
  \<Longrightarrow> GenerateSequence fuel maxDepth rnd g ruleName = Some (Inl Rule404Exception)"
  by (simp add: GenerateSequence_def registered_def)

text \<open>Witness for C8: a grammar with one registered leaf, asked for another name.\<close>

theorem GenerateSequence_unregistered_witness:
  "map_of (m_pRules (AddLeaveNode (Grammar_new :: string Grammar) ''known'' ''v'')) ''unknown'' = None \<and>
   GenerateSequence 0 0 (\<lambda>_. 0) (AddLeaveNode (Grammar_new :: string Grammar) ''known'' ''v'') ''unknown''
     = Some (Inl Rule404Exception)"
proof -
  have h: "map_of (m_pRules (AddLeaveNode (Grammar_new :: string Grammar) ''known'' ''v'')) ''unknown'' = None"
    by code_simp
  from h GenerateSequence_unregistered[OF h] show ?thesis by simp
qed

subsection \<open>C9: generating from a registered leaf\<close>

text \<open>
  Claim C9. Right after \<open>AddLeaveNode g N v\<close>, in any grammar \<open>g\<close>, generating from \<open>N\<close>
  returns the one-element sequence \<open>[v]\<close>; one unit of fuel is enough.
\<close>

theorem GenerateSequence_AddLeaveNode: "GenerateSequence (Suc fuel) maxDepth rnd (AddLeaveNode g N v) N = Some (Inr [v])"
  by (simp add: GenerateSequence_def registered_def lookup_def AddLeaveNode_entry AddLeaveNode_leaf)

subsection \<open>C1: redefinition by a new rule text\<close>

text \<open>
  Claim C1, as the code has it. Let the name have a registry entry and let the
  compilation of a new rule text under it succeed, in \<^verbatim>\<open>Grammar<std::string>\<close> (the
  grammar \<open>g\<close>) or in the grammar of another payload type (\<open>h\<close>). Afterwards the name
  is still registered; every other entry of the grammar is as it was; and the node such
  an entry holds has been rewritten with \<^verbatim>\<open>SwapDependingNode\<close>: each of its references
  to the node the name had before is a reference to the node the name has now. A
  registered sequence is therefore evaluated over the redirected elements, without
  being compiled again. The entries are those whose node had been allocated
  (\<open>b < next_addr g\<close>), as it is for every entry Grammar.h makes. The patch goes by
  object identity, not by name.
\<close>

theorem redefinition_redirects:
  assumes "registered g name" and "registered h name"
  shows
   "(\<forall>g'. ParseRule (Grammar_string st ind) g name rule = Inr g' \<longrightarrow>
       registered g' name \<and>
       (\<forall>n b. n \<noteq> name \<and> map_of (m_pRules g) n = Some b \<and> b < next_addr g \<longrightarrow>
          map_of (m_pRules g') n = Some b \<and>
          nodes g' b =
            map_option (\<lambda>nd. SwapDependingNode nd (lookup g name) (lookup g' name)) (nodes g b)) \<and>
       (\<forall>n b es fuel maxDepth rnd depth i.
          n \<noteq> name \<and> map_of (m_pRules g) n = Some b \<and> b < next_addr g \<and>
          nodes g b = Some (SequenceNode es) \<longrightarrow>
          Parse (Suc fuel) (nodes g') maxDepth rnd b depth i =
            Parse_all fuel (nodes g') maxDepth rnd
              (map (\<lambda>p. if p = lookup g name then lookup g' name else p) es) depth i)) \<and>
    (\<forall>h'. ParseRule (Grammar_other st ind) h name rule = Inr h' \<longrightarrow>
       registered h' name \<and>
       (\<forall>n b. n \<noteq> name \<and> map_of (m_pRules h) n = Some b \<and> b < next_addr h \<longrightarrow>
          map_of (m_pRules h') n = Some b \<and>
          nodes h' b =
            map_option (\<lambda>nd. SwapDependingNode nd (lookup h name) (lookup h' name)) (nodes h b)) \<and>
       (\<forall>n b es fuel maxDepth rnd depth i.
          n \<noteq> name \<and> map_of (m_pRules h) n = Some b \<and> b < next_addr h \<and>
          nodes h b = Some (SequenceNode es) \<longrightarrow>
          Parse (Suc fuel) (nodes h') maxDepth rnd b depth i =
            Parse_all fuel (nodes h') maxDepth rnd
              (map (\<lambda>p. if p = lookup h name then lookup h' name else p) es) depth i))"
    (is "?S \<and> ?O")
proof (rule conjI)
  show ?S
  proof (intro allI impI)
    fix g' assume "ParseRule (Grammar_string st ind) g name rule = Inr g'"
    from redefinition_patches[OF ParseRule_redefines_string[OF assms(1) this] assms(1)]
    show "registered g' name \<and>
       (\<forall>n b. n \<noteq> name \<and> map_of (m_pRules g) n = Some b \<and> b < next_addr g \<longrightarrow>
          map_of (m_pRules g') n = Some b \<and>
          nodes g' b =
            map_option (\<lambda>nd. SwapDependingNode nd (lookup g name) (lookup g' name)) (nodes g b)) \<and>
       (\<forall>n b es fuel maxDepth rnd depth i.
          n \<noteq> name \<and> map_of (m_pRules g) n = Some b \<and> b < next_addr g \<and>
          nodes g b = Some (SequenceNode es) \<longrightarrow>
          Parse (Suc fuel) (nodes g') maxDepth rnd b depth i =
            Parse_all fuel (nodes g') maxDepth rnd
              (map (\<lambda>p. if p = lookup g name then lookup g' name else p) es) depth i)" .
  qed
  show ?O
  proof (intro allI impI)
    fix h' assume "ParseRule (Grammar_other st ind) h name rule = Inr h'"
    from redefinition_patches[OF ParseRule_redefines_other[OF assms(2) this] assms(2)]
    show "registered h' name \<and>
       (\<forall>n b. n \<noteq> name \<and> map_of (m_pRules h) n = Some b \<and> b < next_addr h \<longrightarrow>
          map_of (m_pRules h') n = Some b \<and>
          nodes h' b =
            map_option (\<lambda>nd. SwapDependingNode nd (lookup h name) (lookup h' name)) (nodes h b)) \<and>
       (\<forall>n b es fuel maxDepth rnd depth i.
          n \<noteq> name \<and> map_of (m_pRules h) n = Some b \<and> b < next_addr h \<and>
          nodes h b = Some (SequenceNode es) \<longrightarrow>
          Parse (Suc fuel) (nodes h') maxDepth rnd b depth i =
            Parse_all fuel (nodes h') maxDepth rnd
              (map (\<lambda>p. if p = lookup h name then lookup h' name else p) es) depth i)" .
  qed
qed

text \<open>
  Counterexample to claim C1 as stated, which speaks of every composite that contains the name. With two names
  for one node that fails: \<^verbatim>\<open>t = a & c\<close> is compiled while \<^verbatim>\<open>a\<close> and \<^verbatim>\<open>b\<close> name
  the same leaf; redefining \<^verbatim>\<open>b\<close> redirects the element of \<^verbatim>\<open>t\<close>; the later
  redefinition of \<^verbatim>\<open>a\<close> as \<^verbatim>\<open>z\<close> finds no reference to patch, and \<^verbatim>\<open>t\<close> still
  generates \<^verbatim>\<open>y c\<close>.
\<close>

theorem redefinition_alias_counterexample:
  "case ParseRules string_grammar Grammar_new
      [(''a'', ''a''), (''b'', ''a''), (''t'', ''a & c''), (''b'', ''y''), (''a'', ''z'')] of
     Inl e \<Rightarrow> False
   | Inr g \<Rightarrow> GenerateSequence 3 5 (\<lambda>_. 0) g ''a'' = Some (Inr [''z'']) \<and>
             GenerateSequence 3 5 (\<lambda>_. 0) g ''c'' = Some (Inr [''c'']) \<and>
             GenerateSequence 3 5 (\<lambda>_. 0) g ''t'' = Some (Inr [''y'', ''c''])"
  by code_simp

text \<open>Witness for C1: in the grammar of \<^verbatim>\<open>t = a & c\<close> the name \<^verbatim>\<open>a\<close> is redefined by the
  text \<^verbatim>\<open>x & y\<close> (string payload) and by \<^verbatim>\<open>c # 2\<close> (another payload); the sequence
  \<^verbatim>\<open>t\<close> then refers to the new node of \<^verbatim>\<open>a\<close>.\<close>

theorem redefinition_redirects_witness:
  "registered sequence_grammar ''a'' \<and> registered number_grammar ''a'' \<and>
   (\<exists>g'. ParseRule string_grammar sequence_grammar ''a'' ''x & y'' = Inr g' \<and>
      registered g' ''a'' \<and>
      map_of (m_pRules g') ''t'' = Some (lookup sequence_grammar ''t'') \<and>
      nodes g' (lookup sequence_grammar ''t'') =
        Some (SequenceNode [lookup g' ''a'', lookup sequence_grammar ''c'']) \<and>
      Parse 4 (nodes g') 5 (\<lambda>_. 0) (lookup sequence_grammar ''t'') 0 0 =
        Parse_all 3 (nodes g') 5 (\<lambda>_. 0) [lookup g' ''a'', lookup sequence_grammar ''c''] 0 0) \<and>
   (\<exists>h'. ParseRule nat_grammar number_grammar ''a'' ''c # 2'' = Inr h' \<and>
      registered h' ''a'' \<and>
      map_of (m_pRules h') ''t'' = Some (lookup number_grammar ''t'') \<and>
      nodes h' (lookup number_grammar ''t'') =
        Some (SequenceNode [lookup h' ''a'', lookup number_grammar ''c'']) \<and>
      Parse 4 (nodes h') 5 (\<lambda>_. 0) (lookup number_grammar ''t'') 0 0 =
        Parse_all 3 (nodes h') 5 (\<lambda>_. 0) [lookup h' ''a'', lookup number_grammar ''c''] 0 0)"
proof -
  have rg: "registered sequence_grammar ''a''" and rh: "registered number_grammar ''a''"
    by code_simp+
  note th = redefinition_redirects[OF rg rh, of stof_decimal length, folded string_grammar_def nat_grammar_def]
  have "case ParseRule string_grammar sequence_grammar ''a'' ''x & y'' of Inl e \<Rightarrow> False | Inr g' \<Rightarrow> True"
    by code_simp
  then obtain g' where g': "ParseRule string_grammar sequence_grammar ''a'' ''x & y'' = Inr g'"
    by (auto split: sum.splits)
  have "case ParseRule nat_grammar number_grammar ''a'' ''c # 2'' of Inl e \<Rightarrow> False | Inr h' \<Rightarrow> True"
    by code_simp
  then obtain h' where h': "ParseRule nat_grammar number_grammar ''a'' ''c # 2'' = Inr h'"
    by (auto split: sum.splits)
  have gt: "''t'' \<noteq> ''a'' \<and> map_of (m_pRules sequence_grammar) ''t'' = Some (lookup sequence_grammar ''t'') \<and>
      lookup sequence_grammar ''t'' < next_addr sequence_grammar"
    and gn: "nodes sequence_grammar (lookup sequence_grammar ''t'') =
      Some (SequenceNode [lookup sequence_grammar ''a'', lookup sequence_grammar ''c''])"
    and gc: "lookup sequence_grammar ''c'' \<noteq> lookup sequence_grammar ''a''"
    by code_simp+
  have ht: "''t'' \<noteq> ''a'' \<and> map_of (m_pRules number_grammar) ''t'' = Some (lookup number_grammar ''t'') \<and>
      lookup number_grammar ''t'' < next_addr number_grammar"
    and hn: "nodes number_grammar (lookup number_grammar ''t'') =
      Some (SequenceNode [lookup number_grammar ''a'', lookup number_grammar ''c''])"
    and hc: "lookup number_grammar ''c'' \<noteq> lookup number_grammar ''a''"
    by code_simp+
  note s = th[THEN conjunct1, rule_format, OF g']
  note o = th[THEN conjunct2, rule_format, OF h']
  have s1: "registered g' ''a''" by (rule s[THEN conjunct1])
  from s[THEN conjunct2, THEN conjunct1, rule_format, OF gt] gn gc
  have s2: "map_of (m_pRules g') ''t'' = Some (lookup sequence_grammar ''t'')"
    and s3: "nodes g' (lookup sequence_grammar ''t'') =
        Some (SequenceNode [lookup g' ''a'', lookup sequence_grammar ''c''])"
    by (simp_all add: swap_ptr_def)
  from s[THEN conjunct2, THEN conjunct2, rule_format, of "''t''" "lookup sequence_grammar ''t''"
      "[lookup sequence_grammar ''a'', lookup sequence_grammar ''c'']" 3 5 "\<lambda>_. 0" 0 0] gt gn gc
  have s4: "Parse 4 (nodes g') 5 (\<lambda>_. 0) (lookup sequence_grammar ''t'') 0 0 =
        Parse_all 3 (nodes g') 5 (\<lambda>_. 0) [lookup g' ''a'', lookup sequence_grammar ''c''] 0 0"
    by (simp add: numeral_eq_Suc)
  have o1: "registered h' ''a''" by (rule o[THEN conjunct1])
  from o[THEN conjunct2, THEN conjunct1, rule_format, OF ht] hn hc
  have o2: "map_of (m_pRules h') ''t'' = Some (lookup number_grammar ''t'')"
    and o3: "nodes h' (lookup number_grammar ''t'') =
        Some (SequenceNode [lookup h' ''a'', lookup number_grammar ''c''])"
    by (simp_all add: swap_ptr_def)
  from o[THEN conjunct2, THEN conjunct2, rule_format, of "''t''" "lookup number_grammar ''t''"
      "[lookup number_grammar ''a'', lookup number_grammar ''c'']" 3 5 "\<lambda>_. 0" 0 0] ht hn hc
  have o4: "Parse 4 (nodes h') 5 (\<lambda>_. 0) (lookup number_grammar ''t'') 0 0 =
        Parse_all 3 (nodes h') 5 (\<lambda>_. 0) [lookup h' ''a'', lookup number_grammar ''c''] 0 0"
    by (simp add: numeral_eq_Suc)
  from g' s1 s2 s3 s4 have S: "\<exists>g'. ParseRule string_grammar sequence_grammar ''a'' ''x & y'' = Inr g' \<and>
      registered g' ''a'' \<and>
      map_of (m_pRules g') ''t'' = Some (lookup sequence_grammar ''t'') \<and>
      nodes g' (lookup sequence_grammar ''t'') =
        Some (SequenceNode [lookup g' ''a'', lookup sequence_grammar ''c'']) \<and>
      Parse 4 (nodes g') 5 (\<lambda>_. 0) (lookup sequence_grammar ''t'') 0 0 =
        Parse_all 3 (nodes g') 5 (\<lambda>_. 0) [lookup g' ''a'', lookup sequence_grammar ''c''] 0 0"
    by (intro exI[of _ g'] conjI)
  from h' o1 o2 o3 o4 have O: "\<exists>h'. ParseRule nat_grammar number_grammar ''a'' ''c # 2'' = Inr h' \<and>
      registered h' ''a'' \<and>
      map_of (m_pRules h') ''t'' = Some (lookup number_grammar ''t'') \<and>
      nodes h' (lookup number_grammar ''t'') =
        Some (SequenceNode [lookup h' ''a'', lookup number_grammar ''c'']) \<and>
      Parse 4 (nodes h') 5 (\<lambda>_. 0) (lookup number_grammar ''t'') 0 0 =
        Parse_all 3 (nodes h') 5 (\<lambda>_. 0) [lookup h' ''a'', lookup number_grammar ''c''] 0 0"
    by (intro exI[of _ h'] conjI)
  from rg rh S O show ?thesis by (intro conjI)
qed

subsection \<open>C2: the operands of the fallback rule\<close>

text \<open>
  Claim C2, as the code has it. For a rule text whose first \<^verbatim>\<open>" -> "\<close> stands at
  index \<open>k\<close>, so that the text is \<open>A @ '' -> '' @ B\<close> with \<open>A = take k rule\<close> and
  \<open>B = drop (k + 4) rule\<close>, and provided the indeterminate count does not cut \<open>B\<close>
  short: a successful compilation resolves \<open>B\<close> and then \<open>A\<close>, and registers under the
  name a new \<open>LNode\<close> whose first component (the rule node, evaluated below the depth
  limit) is the registry node of the right operand \<open>B\<close> and whose second component
  (the fallback node) is the registry node of the left operand \<open>A\<close>. When the name is
  being redefined, references to its previous node are redirected to the new node.
\<close>

theorem LNode_rule_operands:
  assumes "string_find rule LND_DEL 0 = Some k"
    and "length rule - (k + 4) \<le> indeterminate pf rule"
    and "ParseRule pf g name rule = Inr g'"
  shows "rule = take k rule @ LND_DEL @ drop (k + 4) rule \<and>
    (\<exists>g1 g2. resolve_or_compile pf g (drop (k + 4) rule) = Inr g1 \<and>
           resolve_or_compile pf g1 (take k rule) = Inr g2 \<and>
           map_of (m_pRules g') name = Some (next_addr g2) \<and>
           nodes g' (next_addr g2) =
             Some (if registered g2 name
                   then SwapDependingNode (LNode (lookup g2 (drop (k + 4) rule)) (lookup g2 (take k rule)))
                          (lookup g2 name) (next_addr g2)
                   else LNode (lookup g2 (drop (k + 4) rule)) (lookup g2 (take k rule))))"
proof -
  note ops = LNode_operands_found[of rule k "indeterminate pf", OF assms(1,2)]
  from assms(1,3) ops(1)
  have "AddLNodeRule pf g name (drop (k + 4) rule) (take k rule) = Inr g'"
    by (simp add: ParseRule.simps[of pf g name rule] ParseLNodeRule.simps[of pf g name rule])
  from AddLNodeRule_result[OF this] ops(2) show ?thesis by simp
qed

text \<open>
  Counterexample to claim C2 as stated, which has the operands the other way round. In the compilation of
  \<^verbatim>\<open>r = a -> b\<close> the node of \<^verbatim>\<open>r\<close> has the leaf of \<^verbatim>\<open>b\<close> as its rule node and the
  leaf of \<^verbatim>\<open>a\<close> as its fallback node, and below the depth limit \<^verbatim>\<open>r\<close> generates
  \<^verbatim>\<open>b\<close>.
\<close>

theorem LNode_rule_counterexample:
  "case ParseRule string_grammar Grammar_new ''r'' ''a -> b'' of
     Inl e \<Rightarrow> False
   | Inr g' \<Rightarrow>
       nodes g' (lookup g' ''r'') = Some (LNode (lookup g' ''b'') (lookup g' ''a'')) \<and>
       nodes g' (lookup g' ''r'') \<noteq> Some (LNode (lookup g' ''a'') (lookup g' ''b'')) \<and>
       nodes g' (lookup g' ''a'') = Some (LeafNode ''a'') \<and>
       nodes g' (lookup g' ''b'') = Some (LeafNode ''b'') \<and>
       GenerateSequence 2 1 (\<lambda>_. 0) g' ''r'' = Some (Inr [''b''])"
  by code_simp

text \<open>Witness for C2: the compilation of \<^verbatim>\<open>r = a -> b\<close> in the empty grammar.\<close>

theorem LNode_rule_operands_witness:
  "string_find ''a -> b'' LND_DEL 0 = Some 1 \<and>
   (\<exists>g'. ParseRule string_grammar Grammar_new ''r'' ''a -> b'' = Inr g' \<and>
     (\<exists>g1 g2. resolve_or_compile string_grammar Grammar_new ''b'' = Inr g1 \<and>
        resolve_or_compile string_grammar g1 ''a'' = Inr g2 \<and>
        map_of (m_pRules g') ''r'' = Some (next_addr g2) \<and>
        nodes g' (next_addr g2) =
          Some (if registered g2 ''r''
                then SwapDependingNode (LNode (lookup g2 ''b'') (lookup g2 ''a''))
                       (lookup g2 ''r'') (next_addr g2)
                else LNode (lookup g2 ''b'') (lookup g2 ''a''))))"
proof -
  have k: "string_find ''a -> b'' LND_DEL 0 = Some 1" by code_simp
  have cut: "length ''a -> b'' - (1 + 4) \<le> indeterminate string_grammar ''a -> b''"
    by (simp add: string_grammar_def Grammar_string_def)
  have "case ParseRule string_grammar Grammar_new ''r'' ''a -> b'' of Inl e \<Rightarrow> False | Inr g' \<Rightarrow> True"
    by code_simp
  then obtain g' where r: "ParseRule string_grammar Grammar_new ''r'' ''a -> b'' = Inr g'"
    by (auto split: sum.splits)
  have ops: "take 1 ''a -> b'' = ''a''" "drop (1 + 4) ''a -> b'' = ''b''" by simp_all
  from LNode_rule_operands[OF k cut r, unfolded ops, THEN conjunct2] k r show ?thesis by blast
qed

subsection \<open>C5: the weights of a selector\<close>




subsection \<open>C6: the count of a repetition\<close>

text \<open>
  Claim C6, as the code has it. Let the rule text be a repetition: it holds none of
  \<^verbatim>\<open>" -> "\<close>, \<^verbatim>\<open>" & "\<close>, \<^verbatim>\<open>" | "\<close>, and its first \<^verbatim>\<open>" # "\<close> stands at index \<open>k\<close>.
  The text after the delimiter is handed to \<^verbatim>\<open>std::stof\<close>; when that throws, the
  compilation ends with the exception. Otherwise the repeated rule, the text before the
  delimiter, is resolved first, and when that fails the compilation ends with its
  error. Then the node is constructed: a negative parsed value ends the compilation with
  \<open>InvalidRepetitionCount\<close>, and any other value is truncated to a natural number, the
  count of the \<open>RepetitionNode\<close> registered under the name.
\<close>

theorem repetition_rule_count:
  assumes "\<not> sublist LND_DEL rule" and "\<not> sublist SEQ_DEL rule" and "\<not> sublist SEL_DEL rule"
    and "string_find rule REP_DEL 0 = Some k"
  shows
   "(\<forall>e. stof pf (drop (k + 3) rule) = Inl e \<longrightarrow> ParseRule pf g name rule = Inl e) \<and>
    (\<forall>n e. stof pf (drop (k + 3) rule) = Inr n \<and> resolve_or_compile pf g (take k rule) = Inl e
       \<longrightarrow> ParseRule pf g name rule = Inl e) \<and>
    (\<forall>n g1. stof pf (drop (k + 3) rule) = Inr n \<and> resolve_or_compile pf g (take k rule) = Inr g1 \<and>
       n < 0 \<longrightarrow> ParseRule pf g name rule = Inl InvalidRepetitionCount) \<and>
    (\<forall>n g1. stof pf (drop (k + 3) rule) = Inr n \<and> resolve_or_compile pf g (take k rule) = Inr g1 \<and>
       0 \<le> n \<longrightarrow>
       (\<exists>g'. ParseRule pf g name rule = Inr g' \<and>
             map_of (m_pRules g') name = Some (next_addr g1) \<and>
             nodes g' (next_addr g1) =
               Some (RepetitionNode
                      (if registered g1 name
                       then swap_ptr (lookup g1 name) (next_addr g1) (lookup g1 (take k rule))
                       else lookup g1 (take k rule))
                      (nat \<lfloor>n\<rfloor>))))"
    (is "?unparsed \<and> ?child \<and> ?negative \<and> ?stored")
proof (intro conjI)
  note d = repetition_dispatch[OF assms, of pf g name]
  have parsed: "ParseRule pf g name rule = AddRepetitionRule pf g name (take k rule, n)"
    if "stof pf (drop (k + 3) rule) = Inr n" for n
    using that by (simp add: d ParseRepetitionRule.simps[of pf g name rule] repeatedRule_of_found[OF assms(4)])
  show ?unparsed
    by (simp add: d ParseRepetitionRule.simps[of pf g name rule] repeatedRule_of_found[OF assms(4)])
  show ?child
  proof (intro allI impI)
    fix n e
    assume a: "stof pf (drop (k + 3) rule) = Inr n \<and> resolve_or_compile pf g (take k rule) = Inl e"
    then show "ParseRule pf g name rule = Inl e"
      by (simp add: parsed AddRepetitionRule_unfold)
  qed
  show ?negative
  proof (intro allI impI)
    fix n g1
    assume a: "stof pf (drop (k + 3) rule) = Inr n \<and> resolve_or_compile pf g (take k rule) = Inr g1 \<and> n < 0"
    then show "ParseRule pf g name rule = Inl InvalidRepetitionCount"
      by (simp add: parsed AddRepetitionRule_unfold)
  qed
  show ?stored
  proof (intro allI impI)
    fix n g1
    assume a: "stof pf (drop (k + 3) rule) = Inr n \<and> resolve_or_compile pf g (take k rule) = Inr g1 \<and> 0 \<le> n"
    let ?nd = "RepetitionNode (lookup g1 (take k rule)) (nat \<lfloor>n\<rfloor>) :: 'a node"
    let ?g2 = "g1\<lparr>nodes := (nodes g1)(next_addr g1 \<mapsto> ?nd), next_addr := Suc (next_addr g1)\<rparr>"
    define g' where "g' = (if registered g1 name then ChangeRule ?g2 name (next_addr g1)
                           else assign ?g2 name (next_addr g1))"
    from a have res: "ParseRule pf g name rule = Inr g'"
      by (simp add: parsed AddRepetitionRule_unfold g'_def Let_def)
    from install_new_node[OF g'_def refl]
    have "map_of (m_pRules g') name = Some (next_addr g1)"
      and "nodes g' (next_addr g1) =
             Some (RepetitionNode
                    (if registered g1 name
                     then swap_ptr (lookup g1 name) (next_addr g1) (lookup g1 (take k rule))
                     else lookup g1 (take k rule))
                    (nat \<lfloor>n\<rfloor>))"
      by simp_all
    with res show "\<exists>g'. ParseRule pf g name rule = Inr g' \<and>
             map_of (m_pRules g') name = Some (next_addr g1) \<and>
             nodes g' (next_addr g1) =
               Some (RepetitionNode
                      (if registered g1 name
                       then swap_ptr (lookup g1 name) (next_addr g1) (lookup g1 (take k rule))
                       else lookup g1 (take k rule))
                      (nat \<lfloor>n\<rfloor>))"
      by blast
  qed
qed

text \<open>
  Counterexample to claim C6 as stated: in a grammar of another payload type \<^verbatim>\<open>r = a # -1\<close>, with
  \<^verbatim>\<open>a\<close> unregistered, fails with \<open>Rule404Exception\<close>, thrown when \<^verbatim>\<open>a\<close> is resolved,
  and not with \<open>InvalidRepetitionCount\<close>: the node is never constructed.
\<close>

theorem repetition_error_counterexample:
  "case ParseRule nat_grammar Grammar_new ''r'' ''a # -1'' of
     Inl e \<Rightarrow> e = Rule404Exception \<and> e \<noteq> InvalidRepetitionCount
   | Inr g' \<Rightarrow> False"
  by code_simp

text \<open>Witness for C6: a count that does not parse, a repeated rule that does not resolve, the
  count -1, and the count 2.5 stored as 2.\<close>

theorem repetition_rule_count_witness:
  "ParseRule string_grammar Grammar_new ''r'' ''a # x'' = Inl std_invalid_argument \<and>
   ParseRule nat_grammar Grammar_new ''r'' ''a # -1'' = Inl Rule404Exception \<and>
   ParseRule string_grammar Grammar_new ''r'' ''a # -1'' = Inl InvalidRepetitionCount \<and>
   (\<exists>g' g1. resolve_or_compile string_grammar Grammar_new ''a'' = Inr g1 \<and>
      ParseRule string_grammar Grammar_new ''r'' ''a # 2.5'' = Inr g' \<and>
      map_of (m_pRules g') ''r'' = Some (next_addr g1) \<and>
      nodes g' (next_addr g1) = Some (RepetitionNode (lookup g1 ''a'') 2))"
proof -
  have nx: "\<not> sublist LND_DEL ''a # x''" "\<not> sublist SEQ_DEL ''a # x''" "\<not> sublist SEL_DEL ''a # x''"
    and nm: "\<not> sublist LND_DEL ''a # -1''" "\<not> sublist SEQ_DEL ''a # -1''" "\<not> sublist SEL_DEL ''a # -1''"
    and nh: "\<not> sublist LND_DEL ''a # 2.5''" "\<not> sublist SEQ_DEL ''a # 2.5''" "\<not> sublist SEL_DEL ''a # 2.5''"
    by (rule not_sublist_eval, code_simp)+
  have kx: "string_find ''a # x'' REP_DEL 0 = Some 1" and km: "string_find ''a # -1'' REP_DEL 0 = Some 1"
    and kh: "string_find ''a # 2.5'' REP_DEL 0 = Some 1"
    by code_simp+
  have tx: "drop (1 + 3) ''a # x'' = ''x''" "take 1 ''a # x'' = ''a''"
    and tm: "drop (1 + 3) ''a # -1'' = ''-1''" "take 1 ''a # -1'' = ''a''"
    and th: "drop (1 + 3) ''a # 2.5'' = ''2.5''" "take 1 ''a # 2.5'' = ''a''"
    by simp_all
  have ex: "stof string_grammar ''x'' = Inl std_invalid_argument"
    and em: "stof string_grammar ''-1'' = Inr (- 1)" and em': "stof nat_grammar ''-1'' = Inr (- 1)"
    and eh: "stof string_grammar ''2.5'' = Inr (5 / 2)"
    by code_simp+
  have "case resolve_or_compile nat_grammar (Grammar_new :: nat Grammar) ''a'' of
          Inl e \<Rightarrow> e = Rule404Exception | Inr g1 \<Rightarrow> False"
    by code_simp
  then have child: "resolve_or_compile nat_grammar (Grammar_new :: nat Grammar) ''a'' = Inl Rule404Exception"
    by (auto split: sum.splits)
  have "case resolve_or_compile string_grammar Grammar_new ''a'' of
          Inl e \<Rightarrow> False | Inr g1 \<Rightarrow> \<not> registered g1 ''r''"
    by code_simp
  then obtain g1 where g1: "resolve_or_compile string_grammar Grammar_new ''a'' = Inr g1"
    and nr: "\<not> registered g1 ''r''"
    by (auto split: sum.splits)
  have 1: "ParseRule string_grammar Grammar_new ''r'' ''a # x'' = Inl std_invalid_argument"
    by (rule repetition_rule_count[OF nx kx, of string_grammar Grammar_new "''r''", unfolded tx,
          THEN conjunct1, rule_format, OF ex])
  have 2: "ParseRule nat_grammar Grammar_new ''r'' ''a # -1'' = Inl Rule404Exception"
    by (rule repetition_rule_count[OF nm km, of nat_grammar Grammar_new "''r''", unfolded tm,
          THEN conjunct2, THEN conjunct1, rule_format, of "- 1"]) (simp add: em' child)
  have 3: "ParseRule string_grammar Grammar_new ''r'' ''a # -1'' = Inl InvalidRepetitionCount"
    by (rule repetition_rule_count[OF nm km, of string_grammar Grammar_new "''r''", unfolded tm,
          THEN conjunct2, THEN conjunct2, THEN conjunct1, rule_format, of "- 1" g1]) (simp add: em g1)
  have "\<lfloor>5 / 2 :: rat\<rfloor> = 2" by linarith
  then have fl: "nat \<lfloor>5 / 2 :: rat\<rfloor> = 2" by simp
  from repetition_rule_count[OF nh kh, of string_grammar Grammar_new "''r''", unfolded th,
          THEN conjunct2, THEN conjunct2, THEN conjunct2, rule_format, of "5 / 2" g1] eh g1 nr fl
  have 4: "\<exists>g' g1. resolve_or_compile string_grammar Grammar_new ''a'' = Inr g1 \<and>
      ParseRule string_grammar Grammar_new ''r'' ''a # 2.5'' = Inr g' \<and>
      map_of (m_pRules g') ''r'' = Some (next_addr g1) \<and>
      nodes g' (next_addr g1) = Some (RepetitionNode (lookup g1 ''a'') 2)"
    by auto
  from 1 2 3 4 show ?thesis by (intro conjI)
qed

subsection \<open>C10: registering a leaf under an existing name\<close>

text \<open>
  Claim C10 lets the composites that were compiled against the old node of a name
  continue to evaluate that node after \<open>AddLeaveNode\<close> on the name.
  \<^verbatim>\<open>AddLeaveNode\<close> (lines 103 to 107) assigns the registry entry and does not call
  \<^verbatim>\<open>ChangeRule\<close>, which every \<^verbatim>\<open>Add...Rule\<close> member calls for a name that exists. The
  child references stay as they were, as the claim says, but they are raw pointers:
  when the entry was the only shared pointer to the old node, the assignment destroys
  it. The code evaluated at that input: after \<^verbatim>\<open>t = a & c\<close> the sequence generates
  \<^verbatim>\<open>a c\<close>; after \<open>AddLeaveNode\<close> on \<^verbatim>\<open>a\<close> with the value \<^verbatim>\<open>z\<close> the name
  \<^verbatim>\<open>a\<close> generates \<^verbatim>\<open>z\<close>, the sequence still refers to the address of the old
  leaf, nothing is stored there any more, and generating from \<^verbatim>\<open>t\<close> dereferences
  the destroyed node.
\<close>

theorem AddLeaveNode_dangling_reference:
  "case ParseRule string_grammar Grammar_new ''t'' ''a & c'' of
     Inl e \<Rightarrow> False
   | Inr g \<Rightarrow>
       GenerateSequence 3 5 (\<lambda>_. 0) g ''t'' = Some (Inr [''a'', ''c'']) \<and>
       nodes g (lookup g ''t'') = Some (SequenceNode [lookup g ''a'', lookup g ''c'']) \<and>
       nodes (AddLeaveNode g ''a'' ''z'') (lookup g ''t'') = Some (SequenceNode [lookup g ''a'', lookup g ''c'']) \<and>
       nodes (AddLeaveNode g ''a'' ''z'') (lookup g ''a'') = None \<and>
       GenerateSequence 3 5 (\<lambda>_. 0) (AddLeaveNode g ''a'' ''z'') ''a'' = Some (Inr [''z'']) \<and>
       GenerateSequence 3 5 (\<lambda>_. 0) (AddLeaveNode g ''a'' ''z'') ''t'' = Some (Inl undefined_behaviour)"
  by code_simp

end
